theory Spec2Isabelle
  imports Main "HOL-Library.Word" "HOL-Library.AList" "HOL-Library.Multiset"
begin

section \<open>float64 arithmetic on counters\<close>

text \<open>
  Collect converts every counter with \<^verbatim>\<open>float64(x)\<close> and merges with \<^verbatim>\<open>+=\<close> on float64.
  All values that arise are non-negative integers, so a float64 is modelled by the natural
  number it holds. A float64 has 53 significant bits: a conversion or an addition returns
  the exact result rounded to the nearest number with 53 significant bits, a tie going to
  the even significand (IEEE 754 round-to-nearest-even, as Go does). The merged values
  never exceed \<open>2 ^ 118\<close> (lemma \<open>rulesCounters_values_float64\<close>), far below the largest
  finite float64, so no infinity arises.
\<close>

type_synonym float64 = nat

fun bitlen :: "nat \<Rightarrow> nat" where
  "bitlen n = (if n = 0 then 0 else Suc (bitlen (n div 2)))"

declare bitlen.simps [simp del]

text \<open>Rounding \<open>n\<close> to a multiple of \<open>2 ^ k\<close>, ties to the even multiple.\<close>

definition round_half_even :: "nat \<Rightarrow> nat \<Rightarrow> nat" where
  "round_half_even k n =
     (let q = n div 2 ^ k; r = n mod 2 ^ k in
      if 2 * r < 2 ^ k then q * 2 ^ k
      else if 2 ^ k < 2 * r then (q + 1) * 2 ^ k
      else if even q then q * 2 ^ k
      else (q + 1) * 2 ^ k)"

definition float64_round :: "nat \<Rightarrow> float64" where
  "float64_round n = round_half_even (bitlen n - 53) n"

definition float64_of_uint64 :: "64 word \<Rightarrow> float64" where
  "float64_of_uint64 w = float64_round (unat w)"

definition float64_add :: "float64 \<Rightarrow> float64 \<Rightarrow> float64" where
  "float64_add a b = float64_round (a + b)"

text \<open>
  The float64 fold of a sequence of counters: the first one converted, every further one
  converted and added, left to right.
\<close>

fun float64_fold :: "64 word list \<Rightarrow> float64" where
  "float64_fold [] = 0"
| "float64_fold (w # ws) =
     foldl (\<lambda>a x. float64_add a (float64_of_uint64 x)) (float64_of_uint64 w) ws"

text \<open>
  The numbers that a float64 can hold: at most 53 significant bits. \<open>absdiff\<close> is the
  distance of two numbers, \<open>accBound\<close> the bound on the merged values.
\<close>

definition isFloat64 :: "nat \<Rightarrow> bool" where
  "isFloat64 x \<longleftrightarrow> x mod 2 ^ (bitlen x - 53) = 0"

definition absdiff :: "nat \<Rightarrow> nat \<Rightarrow> nat" where
  "absdiff a b = (if a \<le> b then b - a else a - b)"

definition accBound :: nat where
  "accBound = 2 ^ 118"

section \<open>Data model\<close>

text \<open>
  Modelled from the spec: the types \<^verbatim>\<open>Rule\<close>, \<^verbatim>\<open>Chain\<close> and \<^verbatim>\<open>Table\<close> of package
  \<^verbatim>\<open>iptables\<close>, which iptables\_exporter.go imports and whose declarations are not among the
  files. The fields are the ones Collect reads; the counters are non-negative 64-bit
  integers; \<^verbatim>\<open>rule.Rule\<close> is the identifier derived from the rule's text.
  A Go map is an association list: the keys with their values, in the order the
  \<^verbatim>\<open>range\<close> loop happens to visit them (Go leaves that order open).
\<close>

record rule =
  rule_Packets :: "64 word"
  rule_Bytes :: "64 word"
  rule_Rule :: string

record chain =
  chain_Policy :: string
  chain_Packets :: "64 word"
  chain_Bytes :: "64 word"
  chain_Rules :: "rule list"

type_synonym table = "(string \<times> chain) list"

type_synonym tables = "(string \<times> table) list"

text \<open>\<^verbatim>\<open>type ruleValues struct { bytes float64; packets float64 }\<close>\<close>

record ruleValues =
  bytes :: float64
  packets :: float64

text \<open>\<^verbatim>\<open>type ruleCounter map[string]*ruleValues\<close>\<close>

type_synonym ruleCounter = "(string \<times> ruleValues) list"

section \<open>Metrics and log calls\<close>

record desc =
  fqName :: string
  helpText :: string
  variableLabels :: "string list"

definition scrapeDurationDesc :: desc where
  "scrapeDurationDesc =
     \<lparr>fqName = ''iptables_scrape_duration_seconds'',
      helpText = ''iptables_exporter: Duration of scraping iptables.'',
      variableLabels = []\<rparr>"

definition scrapeSuccessDesc :: desc where
  "scrapeSuccessDesc =
     \<lparr>fqName = ''iptables_scrape_success'',
      helpText = ''iptables_exporter: Whether scraping iptables succeeded.'',
      variableLabels = []\<rparr>"

definition defaultBytesDesc :: desc where
  "defaultBytesDesc =
     \<lparr>fqName = ''iptables_default_bytes_total'',
      helpText = ''iptables_exporter: Total bytes matching a chain's default policy.'',
      variableLabels = [''table'', ''chain'', ''policy'']\<rparr>"

definition defaultPacketsDesc :: desc where
  "defaultPacketsDesc =
     \<lparr>fqName = ''iptables_default_packets_total'',
      helpText = ''iptables_exporter: Total packets matching a chain's default policy.'',
      variableLabels = [''table'', ''chain'', ''policy'']\<rparr>"

definition ruleBytesDesc :: desc where
  "ruleBytesDesc =
     \<lparr>fqName = ''iptables_rule_bytes_total'',
      helpText = ''iptables_exporter: Total bytes matching a rule.'',
      variableLabels = [''table'', ''chain'', ''rule'']\<rparr>"

definition rulePacketsDesc :: desc where
  "rulePacketsDesc =
     \<lparr>fqName = ''iptables_rule_packets_total'',
      helpText = ''iptables_exporter: Total packets matching a rule.'',
      variableLabels = [''table'', ''chain'', ''rule'']\<rparr>"

datatype valueType = GaugeValue | CounterValue

text \<open>
  A metric value: \<open>DurationSeconds d\<close> stands for \<^verbatim>\<open>duration.Seconds()\<close> of a duration of
  \<open>d\<close> nanoseconds (kept symbolic), \<open>Float64 x\<close> is a float64 holding the integer \<open>x\<close>.
\<close>

datatype sample = DurationSeconds int | Float64 float64

record metric =
  metric_desc :: desc
  metric_valType :: valueType
  metric_val :: sample
  metric_labelValues :: "string list"

datatype log_call = LogError string | LogDebug string

text \<open>
  \<^verbatim>\<open>utf8.ValidString\<close> (Go library) on a string, which is the list of its bytes. A byte below
  0x80 stands alone. Any other byte must open a well-formed sequence: \<open>accept\<close> gives, for
  the first byte, the length of the sequence and the range of its second byte, as the
  tables of the library do (no overlong form, no surrogate, nothing above U+10FFFF); the
  bytes after the second are continuation bytes, 0x80 to 0xBF.
\<close>

definition accept :: "nat \<Rightarrow> (nat \<times> nat \<times> nat) option" where
  "accept x =
     (if 0xC2 \<le> x \<and> x \<le> 0xDF then Some (2, 0x80, 0xBF)
      else if x = 0xE0 then Some (3, 0xA0, 0xBF)
      else if (0xE1 \<le> x \<and> x \<le> 0xEC) \<or> x = 0xEE \<or> x = 0xEF then Some (3, 0x80, 0xBF)
      else if x = 0xED then Some (3, 0x80, 0x9F)
      else if x = 0xF0 then Some (4, 0x90, 0xBF)
      else if 0xF1 \<le> x \<and> x \<le> 0xF3 then Some (4, 0x80, 0xBF)
      else if x = 0xF4 then Some (4, 0x80, 0x8F)
      else None)"

definition between :: "nat \<Rightarrow> nat \<Rightarrow> char \<Rightarrow> bool" where
  "between lo hi c \<longleftrightarrow> lo \<le> of_char c \<and> of_char c \<le> hi"

fun validString :: "string \<Rightarrow> bool" where
  "validString [] = True"
| "validString (b # s) =
     (if (of_char b :: nat) < 0x80 then validString s
      else case accept (of_char b) of
             None \<Rightarrow> False
           | Some (n, lo, hi) \<Rightarrow>
               n - 1 \<le> length s
               \<and> list_all (between lo hi) (take 1 s)
               \<and> list_all (between 0x80 0xBF) (take (n - 2) (drop 1 s))
               \<and> validString (drop (n - 1) s))"

text \<open>
  \<^verbatim>\<open>prometheus.MustNewConstMetric\<close> (Prometheus client library) checks the label values
  against the descriptor and then builds the metric, a \<^verbatim>\<open>constMetric\<close> of the library. It
  panics with the error of the check: the number of label values differs from the number
  of the descriptor's labels (\<open>InconsistentCardinality\<close>, with the number expected and the
  number given), or a label value is not valid UTF-8 (\<open>InvalidLabelValue\<close>, with the first
  such value). \<open>Inl\<close> is the panic. The six descriptors above are well formed, so the error
  that a descriptor can carry is no case here.
\<close>

datatype metricPanic = InconsistentCardinality nat nat | InvalidLabelValue string

definition constMetric :: "desc \<Rightarrow> valueType \<Rightarrow> sample \<Rightarrow> string list \<Rightarrow> metric" where
  "constMetric d vt v lvs =
     \<lparr>metric_desc = d, metric_valType = vt, metric_val = v, metric_labelValues = lvs\<rparr>"

definition MustNewConstMetric ::
  "desc \<Rightarrow> valueType \<Rightarrow> sample \<Rightarrow> string list \<Rightarrow> metricPanic + metric"
where
  "MustNewConstMetric d vt v lvs =
     (if length lvs \<noteq> length (variableLabels d)
      then Inl (InconsistentCardinality (length (variableLabels d)) (length lvs))
      else case List.find (\<lambda>val. \<not> validString val) lvs of
             Some val \<Rightarrow> Inl (InvalidLabelValue val)
           | None \<Rightarrow> Inr (constMetric d vt v lvs))"

text \<open>
  Collect is a sequence of steps. \<open>Send d vt v lvs\<close> is the statement
  \<^verbatim>\<open>metricChan <- prometheus.MustNewConstMetric(d, vt, v, lvs...)\<close>, \<open>Log l\<close> is a call of
  the logger. \<open>perform\<close> runs the steps in their order and gives the metrics sent, the log
  calls made and the panic that ended the run, if there was one: no step after a panic is
  run.
\<close>

datatype step = Send desc valueType sample "string list" | Log log_call

fun perform :: "step list \<Rightarrow> metric list \<times> log_call list \<times> metricPanic option" where
  "perform [] = ([], [], None)"
| "perform (Log l # steps) = (case perform steps of (ms, ls, p) \<Rightarrow> (ms, l # ls, p))"
| "perform (Send d vt v lvs # steps) =
     (case MustNewConstMetric d vt v lvs of
        Inl p \<Rightarrow> ([], [], Some p)
      | Inr m \<Rightarrow> (case perform steps of (ms, ls, q) \<Rightarrow> (m # ms, ls, q)))"


section \<open>Collect\<close>

text \<open>
  The body of the dedup loop (lines 137 to 148): a rule whose identifier is already a key
  adds its converted counters to the entry (and logs the merge), any other rule stores a
  new entry.
\<close>

definition mergeRule :: "ruleCounter \<Rightarrow> rule \<Rightarrow> ruleCounter" where
  "mergeRule rulesCounters rule =
     (case map_of rulesCounters (rule_Rule rule) of
        Some v \<Rightarrow>
          AList.update (rule_Rule rule)
            \<lparr>bytes = float64_add (bytes v) (float64_of_uint64 (rule_Bytes rule)),
             packets = float64_add (packets v) (float64_of_uint64 (rule_Packets rule))\<rparr>
            rulesCounters
      | None \<Rightarrow>
          AList.update (rule_Rule rule)
            \<lparr>bytes = float64_of_uint64 (rule_Bytes rule),
             packets = float64_of_uint64 (rule_Packets rule)\<rparr>
            rulesCounters)"

definition mergeLog :: "string \<Rightarrow> string \<Rightarrow> ruleCounter \<Rightarrow> rule \<Rightarrow> log_call list" where
  "mergeLog tableName chainName rulesCounters rule =
     (case map_of rulesCounters (rule_Rule rule) of
        Some v \<Rightarrow>
          [LogDebug (''Merging counters for '' @ rule_Rule rule @ '' in chain '' @ chainName
                     @ ''['' @ tableName @ '']'')]
      | None \<Rightarrow> [])"

fun dedupLoop ::
  "string \<Rightarrow> string \<Rightarrow> ruleCounter \<times> log_call list \<Rightarrow> rule list \<Rightarrow> ruleCounter \<times> log_call list"
where
  "dedupLoop tableName chainName (rc, logs) [] = (rc, logs)"
| "dedupLoop tableName chainName (rc, logs) (rule # rules) =
     dedupLoop tableName chainName
       (mergeRule rc rule, logs @ mergeLog tableName chainName rc rule) rules"

text \<open>\<^verbatim>\<open>rulesCounters := make(ruleCounter)\<close> followed by the loop over \<^verbatim>\<open>chain.Rules\<close>.\<close>

definition rulesCounters :: "string \<Rightarrow> string \<Rightarrow> rule list \<Rightarrow> ruleCounter \<times> log_call list" where
  "rulesCounters tableName chainName rules = dedupLoop tableName chainName ([], []) rules"

text \<open>
  The loop over \<^verbatim>\<open>rulesCounters\<close> (lines 149 to 166): two metrics per entry. The entries are
  listed in the order of their insertion; Go visits them in an order it leaves open.
\<close>

definition ruleMetrics :: "string \<Rightarrow> string \<Rightarrow> ruleCounter \<Rightarrow> step list" where
  "ruleMetrics tableName chainName rc =
     concat (map (\<lambda>(ruleName, ruleData).
       [Send rulePacketsDesc CounterValue (Float64 (packets ruleData))
          [tableName, chainName, ruleName],
        Send ruleBytesDesc CounterValue (Float64 (bytes ruleData))
          [tableName, chainName, ruleName]]) rc)"

text \<open>
  The body of the loop over the chains of one table (lines 119 to 166): the two
  default-policy metrics, the dedup loop with its log calls, the metrics of the entries.
\<close>

definition collectChain :: "string \<Rightarrow> string \<times> chain \<Rightarrow> step list" where
  "collectChain tableName = (\<lambda>(chainName, chain).
     [Send defaultPacketsDesc CounterValue
        (Float64 (float64_of_uint64 (chain_Packets chain)))
        [tableName, chainName, chain_Policy chain],
      Send defaultBytesDesc CounterValue
        (Float64 (float64_of_uint64 (chain_Bytes chain)))
        [tableName, chainName, chain_Policy chain]]
     @ map Log (snd (rulesCounters tableName chainName (chain_Rules chain)))
     @ ruleMetrics tableName chainName
         (fst (rulesCounters tableName chainName (chain_Rules chain))))"

text \<open>
  The two outer loops (lines 117 and 118). A table and the set of tables are listed in the
  order in which the loops visit them, which Go leaves open.
\<close>

definition collectTable :: "string \<times> table \<Rightarrow> step list" where
  "collectTable = (\<lambda>(tableName, table). concat (map (collectChain tableName) table))"

definition collectTables :: "tables \<Rightarrow> step list" where
  "collectTables tables = concat (map collectTable tables)"

text \<open>
  Collect, given what \<^verbatim>\<open>iptables.GetTables\<close> returned (\<open>tables\<close> and \<open>err\<close>, \<open>None\<close> for
  \<^verbatim>\<open>nil\<close>) and the measured duration in nanoseconds. The result is the sequence of metrics
  sent on the channel, the sequence of log calls, and the panic that ended Collect, if
  there was one.
\<close>

definition noOutputError :: string where
  "noOutputError =
     ''no output from iptables-save; this is probably due to insufficient permissions''"

definition Collect ::
  "int \<Rightarrow> tables \<Rightarrow> string option \<Rightarrow> metric list \<times> log_call list \<times> metricPanic option"
where
  "Collect duration tables err0 =
     (let err = (if err0 = None \<and> length tables = 0 then Some noOutputError else err0)
      in perform
           (Send scrapeDurationDesc GaugeValue (DurationSeconds duration) []
            # (case err of
                 Some e \<Rightarrow>
                   [Send scrapeSuccessDesc GaugeValue (Float64 0) [], Log (LogError e)]
               | None \<Rightarrow>
                   Send scrapeSuccessDesc GaugeValue (Float64 1) [] # collectTables tables)))"

section \<open>Notions used to state the properties\<close>

text \<open>The rules of a chain that carry the identifier \<open>k\<close>, in the chain's order.\<close>

definition rulesWithIdentifier :: "string \<Rightarrow> rule list \<Rightarrow> rule list" where
  "rulesWithIdentifier k rules = filter (\<lambda>r. rule_Rule r = k) rules"

text \<open>The exact (integer) totals of the counters of a sequence of rules.\<close>

definition rawPackets :: "rule list \<Rightarrow> nat" where
  "rawPackets rules = sum_list (map (unat \<circ> rule_Packets) rules)"

definition rawBytes :: "rule list \<Rightarrow> nat" where
  "rawBytes rules = sum_list (map (unat \<circ> rule_Bytes) rules)"

text \<open>The totals of the aggregated per-identifier counters.\<close>

definition totalPackets :: "ruleCounter \<Rightarrow> nat" where
  "totalPackets rc = sum_list (map (packets \<circ> snd) rc)"

definition totalBytes :: "ruleCounter \<Rightarrow> nat" where
  "totalBytes rc = sum_list (map (bytes \<circ> snd) rc)"

text \<open>
  Modelled from the spec: the identifier derivation of package \<^verbatim>\<open>iptables\<close> (section 4.2 of
  the spec; the package's source is not among the files). A raw rule has its text and its
  counters; the capture pattern is a parameter \<open>cap\<close> that maps a rule's text to the
  identifier, or to \<open>None\<close> when the pattern does not match; a rule that does not match is
  left out of \<^verbatim>\<open>chain.Rules\<close>, every other rule carries its identifier in \<^verbatim>\<open>rule.Rule\<close>.
\<close>

record rawRule =
  raw_Packets :: "64 word"
  raw_Bytes :: "64 word"
  raw_body :: string

fun deriveRules :: "(string \<Rightarrow> string option) \<Rightarrow> rawRule list \<Rightarrow> rule list" where
  "deriveRules cap [] = []"
| "deriveRules cap (raw # raws) =
     (case cap (raw_body raw) of
        None \<Rightarrow> deriveRules cap raws
      | Some ident \<Rightarrow>
          \<lparr>rule_Packets = raw_Packets raw, rule_Bytes = raw_Bytes raw, rule_Rule = ident\<rparr>
            # deriveRules cap raws)"

text \<open>
  The default pattern \<^verbatim>\<open>.*\<close> (line 177) as the spec reads it: it matches every rule, and the
  identifier is the whole text of the rule.
\<close>

definition matchEverything :: "string \<Rightarrow> string option" where
  "matchEverything body = Some body"

definition chainPackets :: "rawRule list \<Rightarrow> nat" where
  "chainPackets raws = sum_list (map (unat \<circ> raw_Packets) raws)"

definition chainBytes :: "rawRule list \<Rightarrow> nat" where
  "chainBytes raws = sum_list (map (unat \<circ> raw_Bytes) raws)"

text \<open>
  A scrape fails when \<^verbatim>\<open>GetTables\<close> returned an error or returned no table at all (lines 106
  to 114).
\<close>

definition scrapeFailed :: "tables \<Rightarrow> string option \<Rightarrow> bool" where
  "scrapeFailed tables err \<longleftrightarrow> err \<noteq> None \<or> tables = []"


text \<open>
  \<open>requested steps\<close> are the metrics that the sends of a sequence of steps ask for, and
  \<open>logged steps\<close> its log calls. \<open>validStep\<close> holds of a send whose label values are as
  many as the descriptor's labels and valid UTF-8, and of every log call.
\<close>

fun requested :: "step list \<Rightarrow> metric list" where
  "requested [] = []"
| "requested (Log l # steps) = requested steps"
| "requested (Send d vt v lvs # steps) = constMetric d vt v lvs # requested steps"

fun logged :: "step list \<Rightarrow> log_call list" where
  "logged [] = []"
| "logged (Log l # steps) = l # logged steps"
| "logged (Send d vt v lvs # steps) = logged steps"

fun validStep :: "step \<Rightarrow> bool" where
  "validStep (Log l) = True"
| "validStep (Send d vt v lvs) \<longleftrightarrow>
     length lvs = length (variableLabels d) \<and> list_all validString lvs"

text \<open>
  \<open>validTables tables\<close>: every table name, chain name, policy and rule identifier of the
  ruleset is valid UTF-8.
\<close>

definition validTables :: "tables \<Rightarrow> bool" where
  "validTables tables \<longleftrightarrow>
     (\<forall>(t, tb) \<in> set tables. validString t
        \<and> (\<forall>(c, ch) \<in> set tb. validString c \<and> validString (chain_Policy ch)
             \<and> (\<forall>r \<in> set (chain_Rules ch). validString (rule_Rule r))))"

section \<open>NewCollector and main\<close>

text \<open>
  \<^verbatim>\<open>regexp.Compile\<close> belongs to Go's library; it is the parameter \<open>compile\<close>, which returns
  the error text (\<open>Inl\<close>) or the compiled expression (\<open>Inr\<close>). \<^verbatim>\<open>regexp.MustCompile\<close>
  panics on an error, with a message made of the pattern and the error (\<open>CompilePanic\<close>
  holds the two), and NewCollector (lines 86 to 91) lets that panic pass.
\<close>

datatype panic = CompilePanic string string

definition MustCompile :: "(string \<Rightarrow> string + 're) \<Rightarrow> string \<Rightarrow> panic + 're" where
  "MustCompile compile str =
     (case compile str of
        Inl err \<Rightarrow> Inl (CompilePanic str err)
      | Inr regexp \<Rightarrow> Inr regexp)"

record 're collector =
  capture :: "'re"

definition NewCollector :: "(string \<Rightarrow> string + 're) \<Rightarrow> string \<Rightarrow> panic + 're collector" where
  "NewCollector compile captureRE =
     (case MustCompile compile captureRE of
        Inl p \<Rightarrow> Inl p
      | Inr regexp \<Rightarrow> Inr \<lparr>capture = regexp\<rparr>)"

text \<open>
  The start of \<^verbatim>\<open>main\<close> (lines 171 to 203): the three flags with their defaults, then
  NewCollector, then the registration of the collector and the server. A panic of
  NewCollector ends the program before anything is registered or served.
\<close>

record flags =
  web_listen_address :: "string option"
  web_telemetry_path :: "string option"
  iptables_capture_re :: "string option"

record 're server =
  registered :: "'re collector"
  listenAddress :: string
  metricsPath :: string

definition flagValue :: "string \<Rightarrow> string option \<Rightarrow> string" where
  "flagValue dflt given = (case given of None \<Rightarrow> dflt | Some v \<Rightarrow> v)"

definition main :: "(string \<Rightarrow> string + 're) \<Rightarrow> flags \<Rightarrow> panic + 're server" where
  "main compile fl =
     (let listenAddress = flagValue '':9455'' (web_listen_address fl);
          metricsPath = flagValue ''/metrics'' (web_telemetry_path fl);
          captureRE = flagValue ''.*'' (iptables_capture_re fl)
      in case NewCollector compile captureRE of
           Inl p \<Rightarrow> Inl p
         | Inr c \<Rightarrow> Inr \<lparr>registered = c, listenAddress = listenAddress, metricsPath = metricsPath\<rparr>)"

section \<open>The ruleset parser\<close>

text \<open>
  Modelled from the spec: the parser of package \<^verbatim>\<open>iptables\<close> (section 4.1 of the spec), whose
  source is not among the files. Where the spec leaves a case open the model decides it as
  follows: a chain or rule line outside a table is the violation \<open>OutsideTable\<close>; a chain
  line that does not have the three fields is \<open>MalformedChainLine\<close>; a counter that does not
  fit 64 bits is malformed; a rule line without a leading counter pair is
  \<open>UnrecognizedLine\<close>; a table or chain declared twice is replaced by the later declaration.
\<close>

datatype policy = NoPolicy | Policy string





















section \<open>Rounding\<close>

text \<open>
  Numbers up to \<open>2 ^ 53\<close> are float64 values, so conversions and additions that stay within
  \<open>2 ^ 53\<close> are exact.
\<close>

lemma bitlen_0: "bitlen 0 = 0"
  by (subst bitlen.simps) simp

lemma bitlen_pos: "0 < n \<Longrightarrow> bitlen n = Suc (bitlen (n div 2))"
  by (subst bitlen.simps) simp

lemma bitlen_1 [simp]: "bitlen (Suc 0) = Suc 0"
  by (simp add: bitlen_pos bitlen_0)

lemma bitlen_2 [simp]: "bitlen (Suc (Suc 0)) = Suc (Suc 0)"
  by (simp add: bitlen_pos)

lemma bitlen_Bit0 [simp]: "bitlen (numeral (Num.Bit0 n)) = Suc (bitlen (numeral n))"
  by (simp add: bitlen_pos)

lemma bitlen_Bit1 [simp]: "bitlen (numeral (Num.Bit1 n)) = Suc (bitlen (numeral n))"
  by (simp add: bitlen_pos)

lemma bitlen_le: "bitlen n \<le> m \<longleftrightarrow> n < 2 ^ m"
proof (induction m arbitrary: n)
  case 0
  then show ?case by (cases "n = 0") (simp_all add: bitlen_0 bitlen_pos)
next
  case (Suc m)
  show ?case
  proof (cases "n = 0")
    case True
    then show ?thesis by (simp add: bitlen_0)
  next
    case False
    have "bitlen n = Suc (bitlen (n div 2))" using False by (simp add: bitlen_pos)
    then have "bitlen n \<le> Suc m \<longleftrightarrow> n div 2 < 2 ^ m" using Suc.IH by simp
    also have "\<dots> \<longleftrightarrow> n < 2 ^ Suc m" by auto
    finally show ?thesis .
  qed
qed

lemma bitlen_ge: "0 < n \<Longrightarrow> 2 ^ (bitlen n - 1) \<le> n"
proof -
  assume "0 < n"
  then have "0 < bitlen n" by (simp add: bitlen_pos)
  then have "\<not> bitlen n \<le> bitlen n - 1" by simp
  then show ?thesis unfolding bitlen_le by simp
qed

lemma bitlen_lt: "n < 2 ^ bitlen n"
  using bitlen_le [of n "bitlen n"] by simp

lemma bitlen_pow2: "bitlen (2 ^ L) = Suc L"
proof -
  have "bitlen (2 ^ L) \<le> Suc L" unfolding bitlen_le by simp
  moreover have "\<not> bitlen (2 ^ L) \<le> L" unfolding bitlen_le by simp
  ultimately show ?thesis by simp
qed

lemma round_half_even_multiple: "n mod 2 ^ k = 0 \<Longrightarrow> round_half_even k n = n"
  by (auto simp add: round_half_even_def Let_def)

lemma round_half_even_cases:
  "round_half_even k n = (n div 2 ^ k) * 2 ^ k \<or> round_half_even k n = (n div 2 ^ k + 1) * 2 ^ k"
  by (simp add: round_half_even_def Let_def)

lemma round_half_even_dvd: "2 ^ k dvd round_half_even k n"
  using round_half_even_cases [of k n] by auto

lemma round_half_even_down:
  "2 * (n mod 2 ^ k) < 2 ^ k \<Longrightarrow> round_half_even k n = (n div 2 ^ k) * 2 ^ k"
  by (simp add: round_half_even_def Let_def)

lemma round_half_even_absdiff:
  "absdiff (round_half_even k n) n \<le> n mod 2 ^ k
   \<and> absdiff (round_half_even k n) n \<le> 2 ^ k - n mod 2 ^ k"
proof -
  define g :: nat where "g = 2 ^ k"
  define q where "q = n div g"
  define r where "r = n mod g"
  have g: "0 < g" by (simp add: g_def)
  have n: "n = q * g + r" by (simp add: q_def r_def)
  have r: "r < g" using g by (simp add: r_def)
  have up: "(q + 1) * g = n + (g - r)" using n r by (simp add: algebra_simps)
  have "round_half_even k n = (if 2 * r < g then q * g
          else if g < 2 * r then (q + 1) * g
          else if even q then q * g else (q + 1) * g)"
    by (simp add: round_half_even_def Let_def g_def q_def r_def)
  then have "absdiff (round_half_even k n) n \<le> r \<and> absdiff (round_half_even k n) n \<le> g - r"
    using n r up by (auto simp add: absdiff_def)
  then show ?thesis by (simp add: g_def r_def)
qed

lemma float64_round_exact: "n \<le> 2 ^ 53 \<Longrightarrow> float64_round n = n"
proof (cases "n < 2 ^ 53")
  case True
  then have "bitlen n - 53 = 0" using bitlen_le [of n 53] by simp
  then show ?thesis by (simp add: float64_round_def round_half_even_multiple)
next
  case False
  assume "n \<le> 2 ^ 53"
  with False have n: "n = 2 ^ 53" by simp
  have "bitlen n \<le> 54" unfolding bitlen_le n by simp
  moreover have "\<not> bitlen n \<le> 53" unfolding bitlen_le n by simp
  ultimately have "bitlen n - 53 = 1" by simp
  then show ?thesis by (simp add: float64_round_def round_half_even_multiple n)
qed

lemma float64_of_uint64_exact: "unat w \<le> 2 ^ 53 \<Longrightarrow> float64_of_uint64 w = unat w"
  by (simp add: float64_of_uint64_def float64_round_exact)

lemma float64_add_exact: "a + b \<le> 2 ^ 53 \<Longrightarrow> float64_add a b = a + b"
  by (simp add: float64_add_def float64_round_exact)

lemma foldl_float64_add_exact:
  "a + sum_list (map unat ws) \<le> 2 ^ 53 \<Longrightarrow>
   foldl (\<lambda>a x. float64_add a (float64_of_uint64 x)) a ws = a + sum_list (map unat ws)"
proof (induction ws arbitrary: a)
  case Nil
  then show ?case by simp
next
  case (Cons w ws)
  have w: "float64_of_uint64 w = unat w"
    using Cons.prems by (simp add: float64_of_uint64_exact)
  have aw: "float64_add a (unat w) = a + unat w"
    using Cons.prems by (simp add: float64_add_exact)
  show ?case using Cons.prems Cons.IH [of "a + unat w"] by (simp add: w aw)
qed

lemma float64_fold_exact:
  "sum_list (map unat ws) \<le> 2 ^ 53 \<Longrightarrow> float64_fold ws = sum_list (map unat ws)"
proof (cases ws)
  case Nil
  then show ?thesis by simp
next
  case (Cons w ws')
  assume b: "sum_list (map unat ws) \<le> 2 ^ 53"
  have w: "float64_of_uint64 w = unat w"
    using b Cons by (simp add: float64_of_uint64_exact)
  show ?thesis using b foldl_float64_add_exact [of "unat w" ws'] by (simp add: Cons w)
qed

lemma float64_fold_snoc:
  "float64_fold (ws @ [w]) =
     (if ws = [] then float64_of_uint64 w
      else float64_add (float64_fold ws) (float64_of_uint64 w))"
  by (cases ws) simp_all

text \<open>
  The rounding is the one of IEEE 754: its result is a float64, and no float64 is nearer to
  the exact value.
\<close>

lemma float64_round_le_pow:
  assumes "n < 2 ^ L" and "53 \<le> L"
  shows "float64_round n \<le> 2 ^ L"
proof -
  define k where "k = bitlen n - 53"
  have bl: "bitlen n \<le> L" using assms(1) by (simp add: bitlen_le)
  have kL: "k + 53 \<le> L" using bl assms(2) by (simp add: k_def)
  have "bitlen n \<le> k + 53" by (simp add: k_def)
  then have "n < 2 ^ (k + 53)" by (simp only: bitlen_le)
  then have "n < 2 ^ 53 * 2 ^ k" by (simp add: power_add mult.commute)
  then have q: "n div 2 ^ k < 2 ^ 53" by (simp add: less_mult_imp_div_less)
  have "float64_round n \<le> (n div 2 ^ k + 1) * 2 ^ k"
    using round_half_even_cases [of k n] by (auto simp add: float64_round_def k_def)
  also have "\<dots> \<le> 2 ^ 53 * 2 ^ k" using q by (intro mult_right_mono) simp_all
  also have "\<dots> = 2 ^ (k + 53)" by (simp add: power_add mult.commute)
  also have "\<dots> \<le> 2 ^ L" using kL by (intro power_increasing) simp_all
  finally show ?thesis .
qed

lemma isFloat64_float64_round: "isFloat64 (float64_round n)"
proof (cases "bitlen n \<le> 53")
  case True
  then have k: "bitlen n - 53 = 0" by simp
  have r: "float64_round n = n"
    by (simp add: float64_round_def k round_half_even_multiple)
  show ?thesis by (simp add: isFloat64_def r k)
next
  case False
  define L where "L = bitlen n"
  define k where "k = L - 53"
  define R where "R = float64_round n"
  have L: "53 \<le> L" using False by (simp add: L_def)
  have dvd: "2 ^ k dvd R"
    unfolding R_def float64_round_def k_def L_def by (rule round_half_even_dvd)
  have le: "R \<le> 2 ^ L"
    unfolding R_def using bitlen_lt [of n] L by (intro float64_round_le_pow) (simp_all add: L_def)
  have "2 ^ (bitlen R - 53) dvd R"
  proof (cases "R = 2 ^ L")
    case True
    have "bitlen R - 53 \<le> L" by (simp add: True bitlen_pow2)
    then show ?thesis by (simp add: True le_imp_power_dvd)
  next
    case False
    then have "R < 2 ^ L" using le by simp
    then have "bitlen R \<le> L" by (simp add: bitlen_le)
    then have "bitlen R - 53 \<le> k" by (simp add: k_def)
    then have "(2::nat) ^ (bitlen R - 53) dvd 2 ^ k" by (rule le_imp_power_dvd)
    then show ?thesis using dvd by (rule dvd_trans)
  qed
  then show ?thesis by (simp add: isFloat64_def R_def mod_eq_0_iff_dvd)
qed

lemma absdiff_multiple:
  assumes "0 < g" and "g dvd y"
  shows "n mod g \<le> absdiff y n \<or> g - n mod g \<le> absdiff y n"
proof -
  obtain m where y: "y = g * m" using assms(2) by (auto simp add: dvd_def)
  define r where "r = n mod g"
  define b where "b = g * (n div g)"
  have n: "n = b + r" by (simp add: b_def r_def)
  have r: "r < g" using assms(1) by (simp add: r_def)
  show ?thesis
  proof (cases "m \<le> n div g")
    case True
    then have "y \<le> b" unfolding y b_def by (rule mult_le_mono2)
    then have "r \<le> absdiff y n" by (simp add: absdiff_def n)
    then show ?thesis by (simp add: r_def)
  next
    case False
    then have "Suc (n div g) \<le> m" by simp
    then have "g * Suc (n div g) \<le> y" unfolding y by (rule mult_le_mono2)
    then have "b + g \<le> y" by (simp add: b_def)
    then have "g - r \<le> absdiff y n" using r by (simp add: absdiff_def n)
    then show ?thesis by (simp add: r_def)
  qed
qed

lemma float64_round_nearest:
  assumes "isFloat64 y"
  shows "absdiff (float64_round n) n \<le> absdiff y n"
proof (cases "bitlen n \<le> 53")
  case True
  then have k: "bitlen n - 53 = 0" by simp
  have "float64_round n = n"
    by (simp add: float64_round_def k round_half_even_multiple)
  then show ?thesis by (simp add: absdiff_def)
next
  case False
  define L where "L = bitlen n"
  define k where "k = L - 53"
  have L: "54 \<le> L" using False by (simp add: L_def)
  have near: "absdiff (float64_round n) n \<le> n mod 2 ^ k
     \<and> absdiff (float64_round n) n \<le> 2 ^ k - n mod 2 ^ k"
    unfolding float64_round_def k_def L_def by (rule round_half_even_absdiff)
  show ?thesis
  proof (cases "L \<le> bitlen y")
    case True
    then have "k \<le> bitlen y - 53" by (simp add: k_def)
    then have "(2::nat) ^ k dvd 2 ^ (bitlen y - 53)" by (rule le_imp_power_dvd)
    moreover have "2 ^ (bitlen y - 53) dvd y"
      using assms by (simp add: isFloat64_def mod_eq_0_iff_dvd)
    ultimately have "2 ^ k dvd y" by (rule dvd_trans)
    then have "n mod 2 ^ k \<le> absdiff y n \<or> 2 ^ k - n mod 2 ^ k \<le> absdiff y n"
      by (intro absdiff_multiple) simp_all
    then show ?thesis using near by auto
  next
    case False
    then have "bitlen y \<le> L - 1" by simp
    then have y: "y < 2 ^ (L - 1)" by (simp only: bitlen_le)
    have "0 < n" using L by (cases "n = 0") (simp_all add: L_def bitlen_0)
    then have n: "2 ^ (L - 1) \<le> n" unfolding L_def by (rule bitlen_ge)
    have "(2::nat) ^ k dvd 2 ^ (L - 1)" by (intro le_imp_power_dvd) (simp add: k_def)
    then obtain m where m: "(2::nat) ^ (L - 1) = 2 ^ k * m" by (auto simp add: dvd_def)
    define b where "b = 2 ^ k * (n div 2 ^ k)"
    have nb: "n = b + n mod 2 ^ k" by (simp add: b_def)
    have "m \<le> n div 2 ^ k"
    proof -
      have "2 ^ k * m \<le> n" using n m by simp
      then have "(2 ^ k * m) div 2 ^ k \<le> n div 2 ^ k" by (rule div_le_mono)
      then show ?thesis by simp
    qed
    then have "2 ^ k * m \<le> b" unfolding b_def by (rule mult_le_mono2)
    then have "2 ^ (L - 1) \<le> b" by (simp only: m)
    then have "2 ^ (L - 1) + n mod 2 ^ k \<le> n" using nb by linarith
    then have "n mod 2 ^ k \<le> absdiff y n" using y by (simp add: absdiff_def)
    then show ?thesis using near by simp
  qed
qed

text \<open>Conversions stay within \<open>2 ^ 64\<close> and merged values within \<open>2 ^ 118\<close>.\<close>

text \<open>
  Among two float64 values that are equally near to the exact value, the rounding takes the
  one whose significand is even.
\<close>

lemma multiple_position:
  assumes "0 < (g::nat)" and "g dvd y"
  shows "y = g * (n div g) \<or> y + g \<le> g * (n div g) \<or> y = g * (n div g) + g
         \<or> g * (n div g) + 2 * g \<le> y"
proof -
  obtain m where y: "y = g * m" using assms(2) by (auto simp add: dvd_def)
  define q where "q = n div g"
  consider "m = q" | "Suc m \<le> q" | "m = Suc q" | "Suc (Suc q) \<le> m" by linarith
  then show ?thesis
  proof cases
    case 1
    then show ?thesis by (simp add: y q_def)
  next
    case 2
    then have "g * Suc m \<le> g * q" by (rule mult_le_mono2)
    then show ?thesis by (simp add: y q_def)
  next
    case 3
    then show ?thesis by (simp add: y q_def)
  next
    case 4
    then have "g * Suc (Suc q) \<le> g * m" by (rule mult_le_mono2)
    then show ?thesis by (simp add: y q_def)
  qed
qed

lemma float64_round_tie_even:
  assumes "isFloat64 y" and "y \<noteq> float64_round n"
    and "absdiff y n = absdiff (float64_round n) n"
  shows "even (float64_round n div 2 ^ (bitlen n - 53))"
proof (cases "bitlen n \<le> 53")
  case True
  then have k: "bitlen n - 53 = 0" by simp
  have "float64_round n = n"
    by (simp add: float64_round_def k round_half_even_multiple)
  then have "y = n" using assms(3) by (simp add: absdiff_def split: if_splits)
  then show ?thesis using assms(2) \<open>float64_round n = n\<close> by simp
next
  case False
  define L where "L = bitlen n"
  define k where "k = L - 53"
  define g :: nat where "g = 2 ^ k"
  define r where "r = n mod g"
  define b where "b = g * (n div g)"
  define R where "R = float64_round n"
  have L: "54 \<le> L" using False by (simp add: L_def)
  have g: "0 < g" by (simp add: g_def)
  have n: "n = b + r" by (simp add: b_def r_def)
  have r: "r < g" using g by (simp add: r_def)
  have R: "R = (if 2 * r < g then b
          else if g < 2 * r then b + g
          else if even (n div g) then b else b + g)"
    by (simp add: R_def float64_round_def round_half_even_def Let_def k_def L_def g_def
        r_def b_def algebra_simps)
  have pos: "y = b \<or> y + g \<le> b \<or> y = b + g \<or> b + 2 * g \<le> y \<or> y < b"
  proof (cases "L \<le> bitlen y")
    case True
    then have "k \<le> bitlen y - 53" by (simp add: k_def)
    then have "(2::nat) ^ k dvd 2 ^ (bitlen y - 53)" by (rule le_imp_power_dvd)
    moreover have "2 ^ (bitlen y - 53) dvd y"
      using assms(1) by (simp add: isFloat64_def mod_eq_0_iff_dvd)
    ultimately have "g dvd y" unfolding g_def by (rule dvd_trans)
    then show ?thesis using multiple_position [OF g, of y n] by (auto simp add: b_def)
  next
    case False
    then have "bitlen y \<le> L - 1" by simp
    then have y: "y < 2 ^ (L - 1)" by (simp only: bitlen_le)
    have "0 < n" using L by (cases "n = 0") (simp_all add: L_def bitlen_0)
    then have nl: "2 ^ (L - 1) \<le> n" unfolding L_def by (rule bitlen_ge)
    have "g dvd 2 ^ (L - 1)" unfolding g_def by (intro le_imp_power_dvd) (simp add: k_def)
    then obtain m where m: "(2::nat) ^ (L - 1) = g * m" by (auto simp add: dvd_def)
    have "m \<le> n div g"
    proof -
      have "g * m \<le> n" using nl m by simp
      then have "(g * m) div g \<le> n div g" by (rule div_le_mono)
      then show ?thesis using g by simp
    qed
    then have "g * m \<le> b" unfolding b_def by (rule mult_le_mono2)
    then have "2 ^ (L - 1) \<le> b" by (simp only: m)
    then show ?thesis using y by simp
  qed
  have yR: "y \<noteq> R" using assms(2) by (simp add: R_def)
  have d: "absdiff y n = absdiff R n" using assms(3) by (simp add: R_def)
  have tie: "2 * r = g"
  proof (rule ccontr)
    assume nt: "2 * r \<noteq> g"
    show False
    proof (cases "2 * r < g")
      case True
      then have Rb: "R = b" by (simp add: R)
      show False using pos yR d r True unfolding Rb n absdiff_def by (auto split: if_splits)
    next
      case False
      then have gr: "g < 2 * r" using nt by simp
      then have Rb: "R = b + g" by (simp add: R)
      show False using pos yR d r gr unfolding Rb n absdiff_def by (auto split: if_splits)
    qed
  qed
  have kk: "bitlen n - 53 = k" by (simp add: k_def L_def)
  have "even (R div g)"
  proof (cases "even (n div g)")
    case True
    then have "R = g * (n div g)" using tie by (simp add: R b_def)
    then show ?thesis using True g by simp
  next
    case False
    then have "R = g * (n div g) + g" using tie by (simp add: R b_def)
    then have "R = g * Suc (n div g)" by simp
    then have "R div g = Suc (n div g)" using g by simp
    then show ?thesis using False by simp
  qed
  then show ?thesis by (simp add: R_def kk g_def)
qed

lemma float64_of_uint64_le: "float64_of_uint64 w \<le> 2 ^ 64"
proof -
  have "unat w < 2 ^ 64" using unsigned_less [of w] by simp
  then show ?thesis unfolding float64_of_uint64_def by (intro float64_round_le_pow) simp_all
qed

lemma float64_round_above_pow:
  assumes "2 ^ 118 \<le> n" and "n \<le> 2 ^ 118 + 2 ^ 64"
  shows "float64_round n = 2 ^ 118"
proof -
  define c where "c = n - 2 ^ 118"
  have n: "n = c + 2 ^ 66 * 2 ^ 52" using assms(1) by (simp add: c_def)
  have c: "c \<le> 2 ^ 64" using assms(2) by (simp add: c_def)
  have c66: "c < 2 ^ 66" using c by simp
  have "n < 2 ^ 119" using assms(2) by simp
  then have "bitlen n \<le> 119" by (simp only: bitlen_le)
  moreover have "\<not> n < 2 ^ 118" using assms(1) by (rule leD)
  then have "\<not> bitlen n \<le> 118" unfolding bitlen_le .
  ultimately have k: "bitlen n - 53 = 66" by simp
  have q: "n div 2 ^ 66 = 2 ^ 52"
    unfolding n using c66 by (simp only: div_mult_self2) simp
  have r: "n mod 2 ^ 66 = c"
    unfolding n using c66 by (simp only: mod_mult_self2) simp
  have "2 * c < 2 ^ 66" using c by simp
  then have "2 * (n mod 2 ^ 66) < 2 ^ 66" by (simp only: r)
  then have "round_half_even 66 n = (n div 2 ^ 66) * 2 ^ 66" by (rule round_half_even_down)
  also have "\<dots> = 2 ^ 52 * 2 ^ 66" by (simp only: q)
  also have "\<dots> = 2 ^ 118" by simp
  finally show ?thesis by (simp only: float64_round_def k)
qed

lemma float64_add_le:
  assumes "a \<le> accBound" and "b \<le> 2 ^ 64"
  shows "float64_add a b \<le> accBound"
proof (cases "a + b < 2 ^ 118")
  case True
  then show ?thesis unfolding float64_add_def accBound_def by (intro float64_round_le_pow) simp_all
next
  case False
  then have "float64_round (a + b) = 2 ^ 118"
    using assms unfolding accBound_def by (intro float64_round_above_pow) simp_all
  then show ?thesis by (simp add: float64_add_def accBound_def)
qed

lemma foldl_float64_add_le:
  "a \<le> accBound \<Longrightarrow> foldl (\<lambda>a x. float64_add a (float64_of_uint64 x)) a ws \<le> accBound"
proof (induction ws arbitrary: a)
  case Nil
  then show ?case by simp
next
  case (Cons w ws)
  have "float64_add a (float64_of_uint64 w) \<le> accBound"
    using Cons.prems float64_of_uint64_le by (rule float64_add_le)
  then show ?case using Cons.IH by simp
qed

lemma float64_fold_le: "float64_fold ws \<le> accBound"
proof (cases ws)
  case Nil
  then show ?thesis by simp
next
  case (Cons w ws')
  have "float64_of_uint64 w \<le> accBound"
    using float64_of_uint64_le [of w] by (rule order_trans) (simp add: accBound_def)
  then show ?thesis unfolding Cons float64_fold.simps by (rule foldl_float64_add_le)
qed

lemma isFloat64_0: "isFloat64 0"
  by (simp add: isFloat64_def)

lemma isFloat64_float64_fold: "isFloat64 (float64_fold ws)"
proof (cases ws rule: rev_cases)
  case Nil
  then show ?thesis by (simp add: isFloat64_0)
next
  case (snoc ws' w)
  then show ?thesis
    by (simp add: float64_fold_snoc float64_of_uint64_def float64_add_def
        isFloat64_float64_round)
qed

text \<open>Unfolding rules for evaluating the definitions on numerals.\<close>

lemmas float64_eval =
  float64_of_uint64_def float64_add_def float64_round_def round_half_even_def bitlen_0

lemmas rulesCounters_eval = rulesCounters_def mergeRule_def mergeLog_def

section \<open>The dedup loop\<close>

lemma fst_dedupLoop: "fst (dedupLoop t c (rc, logs) rules) = foldl mergeRule rc rules"
  by (induction rules arbitrary: rc logs) simp_all

lemma fst_rulesCounters: "fst (rulesCounters t c rules) = foldl mergeRule [] rules"
  by (simp add: rulesCounters_def fst_dedupLoop)

lemma map_of_mergeRule:
  "map_of (mergeRule rc r) k =
     (if rule_Rule r = k
      then (case map_of rc k of
              None \<Rightarrow> Some \<lparr>bytes = float64_of_uint64 (rule_Bytes r),
                             packets = float64_of_uint64 (rule_Packets r)\<rparr>
            | Some v \<Rightarrow> Some \<lparr>bytes = float64_add (bytes v) (float64_of_uint64 (rule_Bytes r)),
                               packets = float64_add (packets v) (float64_of_uint64 (rule_Packets r))\<rparr>)
      else map_of rc k)"
  by (simp add: mergeRule_def update_conv' split: option.splits)

lemma keys_mergeRule: "fst ` set (mergeRule rc r) = insert (rule_Rule r) (fst ` set rc)"
  by (simp add: mergeRule_def dom_update split: option.splits)

lemma distinct_mergeRule: "distinct (map fst rc) \<Longrightarrow> distinct (map fst (mergeRule rc r))"
  by (simp add: mergeRule_def distinct_update split: option.splits)

lemma keys_foldl_mergeRule:
  "fst ` set (foldl mergeRule rc rules) = fst ` set rc \<union> rule_Rule ` set rules"
  by (induction rules arbitrary: rc) (auto simp add: keys_mergeRule)

lemma distinct_foldl_mergeRule:
  "distinct (map fst rc) \<Longrightarrow> distinct (map fst (foldl mergeRule rc rules))"
  by (induction rules arbitrary: rc) (simp_all add: distinct_mergeRule)

lemma distinct_rulesCounters: "distinct (map fst (fst (rulesCounters t c rules)))"
  by (simp add: fst_rulesCounters distinct_foldl_mergeRule)

lemma keys_rulesCounters: "fst ` set (fst (rulesCounters t c rules)) = rule_Rule ` set rules"
  by (simp add: fst_rulesCounters keys_foldl_mergeRule)

lemma length_rulesCounters:
  "length (fst (rulesCounters t c rules)) = card (rule_Rule ` set rules)"
proof -
  have d: "distinct (map fst (fst (rulesCounters t c rules)))"
    by (simp add: fst_rulesCounters distinct_foldl_mergeRule)
  have "length (fst (rulesCounters t c rules)) = length (map fst (fst (rulesCounters t c rules)))"
    by simp
  also have "\<dots> = card (set (map fst (fst (rulesCounters t c rules))))"
    using d by (simp only: distinct_card)
  also have "\<dots> = card (rule_Rule ` set rules)"
    by (simp add: fst_rulesCounters keys_foldl_mergeRule)
  finally show ?thesis .
qed

lemma map_of_foldl_mergeRule:
  "map_of (foldl mergeRule [] rules) k =
     (if rulesWithIdentifier k rules = [] then None
      else Some \<lparr>bytes = float64_fold (map rule_Bytes (rulesWithIdentifier k rules)),
                 packets = float64_fold (map rule_Packets (rulesWithIdentifier k rules))\<rparr>)"
proof (induction rules rule: rev_induct)
  case Nil
  then show ?case by (simp add: rulesWithIdentifier_def)
next
  case (snoc r rules)
  show ?case
  proof (cases "rule_Rule r = k")
    case True
    then show ?thesis
      using snoc.IH
      by (simp add: map_of_mergeRule rulesWithIdentifier_def float64_fold_snoc)
  next
    case False
    then show ?thesis
      using snoc.IH by (simp add: map_of_mergeRule rulesWithIdentifier_def)
  qed
qed

lemma rulesWithIdentifier_nonempty: "r \<in> set rules \<Longrightarrow> rulesWithIdentifier (rule_Rule r) rules \<noteq> []"
  by (auto simp add: rulesWithIdentifier_def filter_empty_conv)

lemma lookup_rulesCounters:
  "r \<in> set rules \<Longrightarrow>
   map_of (fst (rulesCounters t c rules)) (rule_Rule r) =
     Some \<lparr>bytes = float64_fold (map rule_Bytes (rulesWithIdentifier (rule_Rule r) rules)),
           packets = float64_fold (map rule_Packets (rulesWithIdentifier (rule_Rule r) rules))\<rparr>"
  by (simp add: fst_rulesCounters map_of_foldl_mergeRule rulesWithIdentifier_nonempty)

lemma entry_rulesCounters:
  assumes "(k, v) \<in> set (fst (rulesCounters t c rules))"
  shows "k \<in> rule_Rule ` set rules
    \<and> v = \<lparr>bytes = float64_fold (map rule_Bytes (rulesWithIdentifier k rules)),
            packets = float64_fold (map rule_Packets (rulesWithIdentifier k rules))\<rparr>"
proof -
  have k: "k \<in> rule_Rule ` set rules"
    using assms keys_rulesCounters [of t c rules] by (metis fst_conv imageI)
  then obtain r where r: "r \<in> set rules" "k = rule_Rule r" by auto
  have "map_of (fst (rulesCounters t c rules)) k = Some v"
    using assms distinct_rulesCounters [of t c rules] by simp
  then show ?thesis using k lookup_rulesCounters [OF r(1), of t c] r(2) by simp
qed

lemma rulesCounters_values_float64:
  assumes "(k, v) \<in> set (fst (rulesCounters t c rules))"
  shows "isFloat64 (bytes v) \<and> bytes v \<le> accBound
    \<and> isFloat64 (packets v) \<and> packets v \<le> accBound"
  using entry_rulesCounters [OF assms]
  by (simp add: isFloat64_float64_fold float64_fold_le)

lemma alist_filter_key:
  "distinct (map fst al) \<Longrightarrow> map_of al k = Some v \<Longrightarrow> filter (\<lambda>e. fst e = k) al = [(k, v)]"
proof (induction al)
  case Nil
  then show ?case by simp
next
  case (Cons e al)
  show ?case
  proof (cases "fst e = k")
    case True
    then have "e = (k, v)" using Cons.prems(2) by (cases e) simp
    moreover have "k \<notin> fst ` set al"
      using Cons.prems(1) True by simp
    then have "filter (\<lambda>e. fst e = k) al = []"
      unfolding filter_empty_conv by (metis imageI)
    ultimately show ?thesis by simp
  next
    case False
    then show ?thesis using Cons by (cases e) auto
  qed
qed

text \<open>Within \<open>2 ^ 53\<close> the entries hold the exact sums.\<close>

lemma rawPackets_filter_le: "rawPackets (rulesWithIdentifier k rules) \<le> rawPackets rules"
  unfolding rawPackets_def rulesWithIdentifier_def by (rule sum_list_filter_le_nat)

lemma rawBytes_filter_le: "rawBytes (rulesWithIdentifier k rules) \<le> rawBytes rules"
  unfolding rawBytes_def rulesWithIdentifier_def by (rule sum_list_filter_le_nat)

lemma float64_fold_packets_exact:
  "rawPackets rules \<le> 2 ^ 53 \<Longrightarrow> float64_fold (map rule_Packets rules) = rawPackets rules"
  using float64_fold_exact [of "map rule_Packets rules"] by (simp add: rawPackets_def comp_def)

lemma float64_fold_bytes_exact:
  "rawBytes rules \<le> 2 ^ 53 \<Longrightarrow> float64_fold (map rule_Bytes rules) = rawBytes rules"
  using float64_fold_exact [of "map rule_Bytes rules"] by (simp add: rawBytes_def comp_def)

lemma map_of_rulesCounters_exact:
  assumes "rawPackets rules \<le> 2 ^ 53" and "rawBytes rules \<le> 2 ^ 53"
  shows "map_of (fst (rulesCounters t c rules)) k =
     (if rulesWithIdentifier k rules = [] then None
      else Some \<lparr>bytes = rawBytes (rulesWithIdentifier k rules),
                 packets = rawPackets (rulesWithIdentifier k rules)\<rparr>)"
proof -
  have p: "rawPackets (rulesWithIdentifier k rules) \<le> 2 ^ 53"
    using assms(1) rawPackets_filter_le [of k rules] by simp
  have b: "rawBytes (rulesWithIdentifier k rules) \<le> 2 ^ 53"
    using assms(2) rawBytes_filter_le [of k rules] by simp
  show ?thesis
    by (simp add: fst_rulesCounters map_of_foldl_mergeRule
        float64_fold_packets_exact [OF p] float64_fold_bytes_exact [OF b])
qed

lemma sum_update_None:
  "map_of al k = None \<Longrightarrow>
   sum_list (map (f \<circ> snd) (AList.update k v al)) = sum_list (map (f \<circ> snd) al) + (f v :: nat)"
  by (induction al) (auto split: if_splits)

lemma sum_update_Some:
  "map_of al k = Some w \<Longrightarrow>
   sum_list (map (f \<circ> snd) (AList.update k v al)) + f w = sum_list (map (f \<circ> snd) al) + (f v :: nat)"
  by (induction al) (auto split: if_splits)

lemma sum_lookup_le:
  "map_of al k = Some w \<Longrightarrow> (f w :: nat) \<le> sum_list (map (f \<circ> snd) al)"
  by (induction al) (auto split: if_splits)

lemma totalPackets_mergeRule:
  assumes "totalPackets rc + unat (rule_Packets r) \<le> 2 ^ 53"
  shows "totalPackets (mergeRule rc r) = totalPackets rc + unat (rule_Packets r)"
proof (cases "map_of rc (rule_Rule r)")
  case None
  have "float64_of_uint64 (rule_Packets r) = unat (rule_Packets r)"
    using assms by (simp add: float64_of_uint64_exact)
  then show ?thesis
    using None by (simp add: totalPackets_def mergeRule_def sum_update_None)
next
  case (Some v)
  have le: "packets v \<le> totalPackets rc"
    unfolding totalPackets_def using Some by (rule sum_lookup_le)
  have c: "float64_of_uint64 (rule_Packets r) = unat (rule_Packets r)"
    using assms by (simp add: float64_of_uint64_exact)
  have a: "float64_add (packets v) (unat (rule_Packets r)) = packets v + unat (rule_Packets r)"
    using assms le by (simp add: float64_add_exact)
  show ?thesis
    using Some le
      sum_update_Some [OF Some, of packets
        "\<lparr>bytes = float64_add (bytes v) (float64_of_uint64 (rule_Bytes r)),
          packets = float64_add (packets v) (float64_of_uint64 (rule_Packets r))\<rparr>"]
    by (simp add: totalPackets_def mergeRule_def c a)
qed

lemma totalBytes_mergeRule:
  assumes "totalBytes rc + unat (rule_Bytes r) \<le> 2 ^ 53"
  shows "totalBytes (mergeRule rc r) = totalBytes rc + unat (rule_Bytes r)"
proof (cases "map_of rc (rule_Rule r)")
  case None
  have "float64_of_uint64 (rule_Bytes r) = unat (rule_Bytes r)"
    using assms by (simp add: float64_of_uint64_exact)
  then show ?thesis
    using None by (simp add: totalBytes_def mergeRule_def sum_update_None)
next
  case (Some v)
  have le: "bytes v \<le> totalBytes rc"
    unfolding totalBytes_def using Some by (rule sum_lookup_le)
  have c: "float64_of_uint64 (rule_Bytes r) = unat (rule_Bytes r)"
    using assms by (simp add: float64_of_uint64_exact)
  have a: "float64_add (bytes v) (unat (rule_Bytes r)) = bytes v + unat (rule_Bytes r)"
    using assms le by (simp add: float64_add_exact)
  show ?thesis
    using Some le
      sum_update_Some [OF Some, of bytes
        "\<lparr>bytes = float64_add (bytes v) (float64_of_uint64 (rule_Bytes r)),
          packets = float64_add (packets v) (float64_of_uint64 (rule_Packets r))\<rparr>"]
    by (simp add: totalBytes_def mergeRule_def c a)
qed

lemma totalPackets_foldl:
  "totalPackets rc + rawPackets rules \<le> 2 ^ 53 \<Longrightarrow>
   totalPackets (foldl mergeRule rc rules) = totalPackets rc + rawPackets rules"
proof (induction rules arbitrary: rc)
  case Nil
  then show ?case by (simp add: rawPackets_def)
next
  case (Cons r rules)
  have step: "totalPackets (mergeRule rc r) = totalPackets rc + unat (rule_Packets r)"
    using Cons.prems by (intro totalPackets_mergeRule) (simp add: rawPackets_def)
  show ?case
    using Cons.prems Cons.IH [of "mergeRule rc r"] by (simp add: step rawPackets_def)
qed

lemma totalBytes_foldl:
  "totalBytes rc + rawBytes rules \<le> 2 ^ 53 \<Longrightarrow>
   totalBytes (foldl mergeRule rc rules) = totalBytes rc + rawBytes rules"
proof (induction rules arbitrary: rc)
  case Nil
  then show ?case by (simp add: rawBytes_def)
next
  case (Cons r rules)
  have step: "totalBytes (mergeRule rc r) = totalBytes rc + unat (rule_Bytes r)"
    using Cons.prems by (intro totalBytes_mergeRule) (simp add: rawBytes_def)
  show ?case
    using Cons.prems Cons.IH [of "mergeRule rc r"] by (simp add: step rawBytes_def)
qed

lemma totalPackets_rulesCounters:
  "rawPackets rules \<le> 2 ^ 53 \<Longrightarrow> totalPackets (fst (rulesCounters t c rules)) = rawPackets rules"
  using totalPackets_foldl [of "[]" rules] by (simp add: fst_rulesCounters totalPackets_def)

lemma totalBytes_rulesCounters:
  "rawBytes rules \<le> 2 ^ 53 \<Longrightarrow> totalBytes (fst (rulesCounters t c rules)) = rawBytes rules"
  using totalBytes_foldl [of "[]" rules] by (simp add: fst_rulesCounters totalBytes_def)

lemma rawPackets_mset: "mset ys = mset xs \<Longrightarrow> rawPackets ys = rawPackets xs"
proof -
  assume "mset ys = mset xs"
  then have "mset (map (unat \<circ> rule_Packets) ys) = mset (map (unat \<circ> rule_Packets) xs)"
    by simp
  then have "sum_mset (mset (map (unat \<circ> rule_Packets) ys))
               = sum_mset (mset (map (unat \<circ> rule_Packets) xs))"
    by (rule arg_cong)
  then show ?thesis by (simp only: rawPackets_def sum_mset_sum_list)
qed

lemma rawBytes_mset: "mset ys = mset xs \<Longrightarrow> rawBytes ys = rawBytes xs"
proof -
  assume "mset ys = mset xs"
  then have "mset (map (unat \<circ> rule_Bytes) ys) = mset (map (unat \<circ> rule_Bytes) xs)"
    by simp
  then have "sum_mset (mset (map (unat \<circ> rule_Bytes) ys))
               = sum_mset (mset (map (unat \<circ> rule_Bytes) xs))"
    by (rule arg_cong)
  then show ?thesis by (simp only: rawBytes_def sum_mset_sum_list)
qed

lemma rulesWithIdentifier_mset:
  "mset ys = mset xs \<Longrightarrow> mset (rulesWithIdentifier k ys) = mset (rulesWithIdentifier k xs)"
  by (simp add: rulesWithIdentifier_def)

text \<open>The rules that the capture pattern keeps.\<close>

lemma deriveRules_packets_le: "rawPackets (deriveRules cap raws) \<le> chainPackets raws"
  by (induction raws) (auto simp add: rawPackets_def chainPackets_def split: option.splits)

lemma deriveRules_bytes_le: "rawBytes (deriveRules cap raws) \<le> chainBytes raws"
  by (induction raws) (auto simp add: rawBytes_def chainBytes_def split: option.splits)

lemma deriveRules_packets_eq:
  "\<forall>raw \<in> set raws. cap (raw_body raw) \<noteq> None \<Longrightarrow>
   rawPackets (deriveRules cap raws) = chainPackets raws"
  by (induction raws) (auto simp add: rawPackets_def chainPackets_def split: option.splits)

lemma deriveRules_bytes_eq:
  "\<forall>raw \<in> set raws. cap (raw_body raw) \<noteq> None \<Longrightarrow>
   rawBytes (deriveRules cap raws) = chainBytes raws"
  by (induction raws) (auto simp add: rawBytes_def chainBytes_def split: option.splits)

lemma deriveRules_matchEverything:
  "map rule_Rule (deriveRules matchEverything raws) = map raw_body raws"
  by (induction raws) (simp_all add: matchEverything_def)

lemma deriveRules_length:
  "length (deriveRules cap raws)
     + length (filter (\<lambda>raw. cap (raw_body raw) = None) raws) = length raws"
  by (induction raws) (simp_all split: option.splits)

section \<open>Aggregation of one chain\<close>

text \<open>
  Claim C1, as amended. In every chain the rules with one identifier are merged into exactly
  one entry of \<^verbatim>\<open>rulesCounters\<close>: the entries whose key is the identifier of a rule \<open>r\<close> of the
  chain are a single entry, and its byte and packet counters are the float64 folds of the
  counters of the rules with that identifier. When the exact totals of those rules are at
  most \<open>2 ^ 53\<close> the entry holds exactly these totals.
\<close>

theorem C1_equal_identifiers_merged:
  "r \<in> set rules \<Longrightarrow>
     filter (\<lambda>e. fst e = rule_Rule r) (fst (rulesCounters t c rules)) =
       [(rule_Rule r,
         \<lparr>bytes = float64_fold (map rule_Bytes (rulesWithIdentifier (rule_Rule r) rules)),
          packets = float64_fold (map rule_Packets (rulesWithIdentifier (rule_Rule r) rules))\<rparr>)]
     \<and> (rawPackets (rulesWithIdentifier (rule_Rule r) rules) \<le> 2 ^ 53
          \<and> rawBytes (rulesWithIdentifier (rule_Rule r) rules) \<le> 2 ^ 53 \<longrightarrow>
        filter (\<lambda>e. fst e = rule_Rule r) (fst (rulesCounters t c rules)) =
          [(rule_Rule r,
            \<lparr>bytes = rawBytes (rulesWithIdentifier (rule_Rule r) rules),
             packets = rawPackets (rulesWithIdentifier (rule_Rule r) rules)\<rparr>)])"
proof -
  assume r: "r \<in> set rules"
  have one: "filter (\<lambda>e. fst e = rule_Rule r) (fst (rulesCounters t c rules)) =
       [(rule_Rule r,
         \<lparr>bytes = float64_fold (map rule_Bytes (rulesWithIdentifier (rule_Rule r) rules)),
          packets = float64_fold (map rule_Packets (rulesWithIdentifier (rule_Rule r) rules))\<rparr>)]"
    using distinct_rulesCounters lookup_rulesCounters [OF r] by (rule alist_filter_key)
  show ?thesis
    using one by (simp add: float64_fold_packets_exact float64_fold_bytes_exact)
qed

text \<open>
  The instance of C1 named in the claim: three rules with identifier \<^verbatim>\<open>allow\<close> and counters
  (10,100), (20,200), (5,50) give the one entry \<^verbatim>\<open>allow\<close> with 35 packets and 350 bytes.
\<close>

theorem C1_allow_example:
  "\<lparr>rule_Packets = 10, rule_Bytes = 100, rule_Rule = ''allow''\<rparr> \<in> set
     [\<lparr>rule_Packets = 10, rule_Bytes = 100, rule_Rule = ''allow''\<rparr>,
      \<lparr>rule_Packets = 20, rule_Bytes = 200, rule_Rule = ''allow''\<rparr>,
      \<lparr>rule_Packets = 5, rule_Bytes = 50, rule_Rule = ''allow''\<rparr>]
   \<and> filter (\<lambda>e. fst e = ''allow'') (fst (rulesCounters ''filter'' ''INPUT''
     [\<lparr>rule_Packets = 10, rule_Bytes = 100, rule_Rule = ''allow''\<rparr>,
      \<lparr>rule_Packets = 20, rule_Bytes = 200, rule_Rule = ''allow''\<rparr>,
      \<lparr>rule_Packets = 5, rule_Bytes = 50, rule_Rule = ''allow''\<rparr>])) =
     [(''allow'', \<lparr>bytes = 350, packets = 35\<rparr>)]
   \<and> length (fst (rulesCounters ''filter'' ''INPUT''
     [\<lparr>rule_Packets = 10, rule_Bytes = 100, rule_Rule = ''allow''\<rparr>,
      \<lparr>rule_Packets = 20, rule_Bytes = 200, rule_Rule = ''allow''\<rparr>,
      \<lparr>rule_Packets = 5, rule_Bytes = 50, rule_Rule = ''allow''\<rparr>])) = 1"
  using C1_equal_identifiers_merged [of
     "\<lparr>rule_Packets = 10, rule_Bytes = 100, rule_Rule = ''allow''\<rparr>"
     "[\<lparr>rule_Packets = 10, rule_Bytes = 100, rule_Rule = ''allow''\<rparr>,
      \<lparr>rule_Packets = 20, rule_Bytes = 200, rule_Rule = ''allow''\<rparr>,
      \<lparr>rule_Packets = 5, rule_Bytes = 50, rule_Rule = ''allow''\<rparr>]" "''filter''" "''INPUT''"]
  by (simp add: rulesWithIdentifier_def rawPackets_def rawBytes_def length_rulesCounters
      float64_eval)

text \<open>
  C1 as first stated fails beyond \<open>2 ^ 53\<close>: three rules \<^verbatim>\<open>allow\<close> with 9007199254740992, 1
  and 1 packets merge into an entry of 9007199254740992 packets, while the sum is
  9007199254740994 (itself a float64).
\<close>

theorem C1_counterexample:
  "map_of (fst (rulesCounters ''filter'' ''INPUT''
     [\<lparr>rule_Packets = 9007199254740992, rule_Bytes = 0, rule_Rule = ''allow''\<rparr>,
      \<lparr>rule_Packets = 1, rule_Bytes = 0, rule_Rule = ''allow''\<rparr>,
      \<lparr>rule_Packets = 1, rule_Bytes = 0, rule_Rule = ''allow''\<rparr>])) ''allow'' =
     Some \<lparr>bytes = 0, packets = 9007199254740992\<rparr>
   \<and> rawPackets (rulesWithIdentifier ''allow''
     [\<lparr>rule_Packets = 9007199254740992, rule_Bytes = 0, rule_Rule = ''allow''\<rparr>,
      \<lparr>rule_Packets = 1, rule_Bytes = 0, rule_Rule = ''allow''\<rparr>,
      \<lparr>rule_Packets = 1, rule_Bytes = 0, rule_Rule = ''allow''\<rparr>]) = 9007199254740994"
  by (simp add: rulesCounters_eval float64_eval rulesWithIdentifier_def rawPackets_def)

text \<open>
  Claim C2, as amended. For a chain whose exact packet total is at most \<open>2 ^ 53\<close>, the sum
  of the aggregated per-identifier packet counters never exceeds the chain's packet total,
  and equals it when the pattern matches every rule of the chain; the same holds for the
  bytes. The chain's rules are \<open>raws\<close>; the pattern is the parameter \<open>cap\<close>.
\<close>

theorem C2_counter_conservation:
  "(chainPackets raws \<le> 2 ^ 53 \<longrightarrow>
      totalPackets (fst (rulesCounters t c (deriveRules cap raws))) \<le> chainPackets raws
      \<and> ((\<forall>raw \<in> set raws. cap (raw_body raw) \<noteq> None) \<longrightarrow>
           totalPackets (fst (rulesCounters t c (deriveRules cap raws))) = chainPackets raws))
   \<and> (chainBytes raws \<le> 2 ^ 53 \<longrightarrow>
      totalBytes (fst (rulesCounters t c (deriveRules cap raws))) \<le> chainBytes raws
      \<and> ((\<forall>raw \<in> set raws. cap (raw_body raw) \<noteq> None) \<longrightarrow>
           totalBytes (fst (rulesCounters t c (deriveRules cap raws))) = chainBytes raws))"
proof -
  have p: "totalPackets (fst (rulesCounters t c (deriveRules cap raws)))
             = rawPackets (deriveRules cap raws)"
    if "chainPackets raws \<le> 2 ^ 53"
    using that deriveRules_packets_le [of cap raws]
    by (intro totalPackets_rulesCounters) simp
  have b: "totalBytes (fst (rulesCounters t c (deriveRules cap raws)))
             = rawBytes (deriveRules cap raws)"
    if "chainBytes raws \<le> 2 ^ 53"
    using that deriveRules_bytes_le [of cap raws]
    by (intro totalBytes_rulesCounters) simp
  show ?thesis
    using p b deriveRules_packets_le [of cap raws] deriveRules_bytes_le [of cap raws]
      deriveRules_packets_eq [of raws cap] deriveRules_bytes_eq [of raws cap]
    by simp
qed

text \<open>An instance of C2: three rules, two of them with the same text, all matched.\<close>

theorem C2_conservation_example:
  "chainPackets
     [\<lparr>raw_Packets = 10, raw_Bytes = 100, raw_body = ''-A INPUT -s 10.0.0.1/32 -j DROP''\<rparr>,
      \<lparr>raw_Packets = 20, raw_Bytes = 200, raw_body = ''-A INPUT -s 10.0.0.2/32 -j DROP''\<rparr>,
      \<lparr>raw_Packets = 5, raw_Bytes = 50, raw_body = ''-A INPUT -s 10.0.0.1/32 -j DROP''\<rparr>] = 35
   \<and> totalPackets (fst (rulesCounters ''filter'' ''INPUT'' (deriveRules matchEverything
     [\<lparr>raw_Packets = 10, raw_Bytes = 100, raw_body = ''-A INPUT -s 10.0.0.1/32 -j DROP''\<rparr>,
      \<lparr>raw_Packets = 20, raw_Bytes = 200, raw_body = ''-A INPUT -s 10.0.0.2/32 -j DROP''\<rparr>,
      \<lparr>raw_Packets = 5, raw_Bytes = 50, raw_body = ''-A INPUT -s 10.0.0.1/32 -j DROP''\<rparr>]))) = 35
   \<and> chainBytes
     [\<lparr>raw_Packets = 10, raw_Bytes = 100, raw_body = ''-A INPUT -s 10.0.0.1/32 -j DROP''\<rparr>,
      \<lparr>raw_Packets = 20, raw_Bytes = 200, raw_body = ''-A INPUT -s 10.0.0.2/32 -j DROP''\<rparr>,
      \<lparr>raw_Packets = 5, raw_Bytes = 50, raw_body = ''-A INPUT -s 10.0.0.1/32 -j DROP''\<rparr>] = 350
   \<and> totalBytes (fst (rulesCounters ''filter'' ''INPUT'' (deriveRules matchEverything
     [\<lparr>raw_Packets = 10, raw_Bytes = 100, raw_body = ''-A INPUT -s 10.0.0.1/32 -j DROP''\<rparr>,
      \<lparr>raw_Packets = 20, raw_Bytes = 200, raw_body = ''-A INPUT -s 10.0.0.2/32 -j DROP''\<rparr>,
      \<lparr>raw_Packets = 5, raw_Bytes = 50, raw_body = ''-A INPUT -s 10.0.0.1/32 -j DROP''\<rparr>]))) = 350"
  using C2_counter_conservation [of
     "[\<lparr>raw_Packets = 10, raw_Bytes = 100, raw_body = ''-A INPUT -s 10.0.0.1/32 -j DROP''\<rparr>,
      \<lparr>raw_Packets = 20, raw_Bytes = 200, raw_body = ''-A INPUT -s 10.0.0.2/32 -j DROP''\<rparr>,
      \<lparr>raw_Packets = 5, raw_Bytes = 50, raw_body = ''-A INPUT -s 10.0.0.1/32 -j DROP''\<rparr>]"
     "''filter''" "''INPUT''" matchEverything]
  by (simp add: chainPackets_def chainBytes_def matchEverything_def)

text \<open>
  C2 as first stated fails beyond \<open>2 ^ 53\<close>: three rules with the same text and
  9007199254740992, 3 and 3 packets are exported as 9007199254741000 packets, more than the
  chain's total of 9007199254740998 (itself a float64).
\<close>

theorem C2_counterexample:
  "totalPackets (fst (rulesCounters ''filter'' ''INPUT'' (deriveRules matchEverything
     [\<lparr>raw_Packets = 9007199254740992, raw_Bytes = 0, raw_body = ''-A INPUT -j ACCEPT''\<rparr>,
      \<lparr>raw_Packets = 3, raw_Bytes = 0, raw_body = ''-A INPUT -j ACCEPT''\<rparr>,
      \<lparr>raw_Packets = 3, raw_Bytes = 0, raw_body = ''-A INPUT -j ACCEPT''\<rparr>])))
     = 9007199254741000
   \<and> chainPackets
     [\<lparr>raw_Packets = 9007199254740992, raw_Bytes = 0, raw_body = ''-A INPUT -j ACCEPT''\<rparr>,
      \<lparr>raw_Packets = 3, raw_Bytes = 0, raw_body = ''-A INPUT -j ACCEPT''\<rparr>,
      \<lparr>raw_Packets = 3, raw_Bytes = 0, raw_body = ''-A INPUT -j ACCEPT''\<rparr>]
     = 9007199254740998"
  by (simp add: totalPackets_def chainPackets_def matchEverything_def rulesCounters_eval
      float64_eval)

text \<open>
  Claim C3, as amended. For every permutation \<open>ys\<close> of a chain's rules \<open>xs\<close> the dedup loop
  yields entries for the same identifiers, and when the chain's exact packet and byte
  totals are at most \<open>2 ^ 53\<close> it yields the same set of entries (same identifiers, same
  packet and byte values).
\<close>

theorem C3_order_insensitive:
  "mset ys = mset xs \<Longrightarrow>
     fst ` set (fst (rulesCounters t c ys)) = fst ` set (fst (rulesCounters t c xs))
     \<and> (rawPackets xs \<le> 2 ^ 53 \<and> rawBytes xs \<le> 2 ^ 53 \<longrightarrow>
          set (fst (rulesCounters t c ys)) = set (fst (rulesCounters t c xs)))"
proof -
  assume m: "mset ys = mset xs"
  have s: "set ys = set xs" using m by (rule mset_eq_setD)
  have keys: "fst ` set (fst (rulesCounters t c ys)) = fst ` set (fst (rulesCounters t c xs))"
    by (simp add: keys_rulesCounters s)
  have "set (fst (rulesCounters t c ys)) = set (fst (rulesCounters t c xs))"
    if px: "rawPackets xs \<le> 2 ^ 53" and bx: "rawBytes xs \<le> 2 ^ 53"
  proof -
    have py: "rawPackets ys \<le> 2 ^ 53" using px rawPackets_mset [OF m] by simp
    have by': "rawBytes ys \<le> 2 ^ 53" using bx rawBytes_mset [OF m] by simp
    have "map_of (fst (rulesCounters t c ys)) k = map_of (fst (rulesCounters t c xs)) k" for k
    proof -
      have g: "mset (rulesWithIdentifier k ys) = mset (rulesWithIdentifier k xs)"
        using m by (rule rulesWithIdentifier_mset)
      have e: "rulesWithIdentifier k ys = [] \<longleftrightarrow> rulesWithIdentifier k xs = []"
        using g by (metis mset_zero_iff)
      show ?thesis
        by (simp add: map_of_rulesCounters_exact [OF py by'] map_of_rulesCounters_exact [OF px bx]
            e rawPackets_mset [OF g] rawBytes_mset [OF g])
    qed
    then have "map_of (fst (rulesCounters t c ys)) = map_of (fst (rulesCounters t c xs))"
      by (rule ext)
    then show ?thesis
      using distinct_rulesCounters [of t c ys] distinct_rulesCounters [of t c xs]
      by (simp add: map_of_inject_set)
  qed
  then show ?thesis using keys by simp
qed

text \<open>An instance of C3: three rules with two identifiers, and the same rules reordered.\<close>

theorem C3_permutation_example:
  "mset [\<lparr>rule_Packets = 5, rule_Bytes = 50, rule_Rule = ''allow''\<rparr>,
         \<lparr>rule_Packets = 20, rule_Bytes = 200, rule_Rule = ''deny''\<rparr>,
         \<lparr>rule_Packets = 10, rule_Bytes = 100, rule_Rule = ''allow''\<rparr>]
     = mset [\<lparr>rule_Packets = 10, rule_Bytes = 100, rule_Rule = ''allow''\<rparr>,
         \<lparr>rule_Packets = 20, rule_Bytes = 200, rule_Rule = ''deny''\<rparr>,
         \<lparr>rule_Packets = 5, rule_Bytes = 50, rule_Rule = ''allow''\<rparr>]
   \<and> rawPackets [\<lparr>rule_Packets = 10, rule_Bytes = 100, rule_Rule = ''allow''\<rparr>,
         \<lparr>rule_Packets = 20, rule_Bytes = 200, rule_Rule = ''deny''\<rparr>,
         \<lparr>rule_Packets = 5, rule_Bytes = 50, rule_Rule = ''allow''\<rparr>] \<le> 2 ^ 53
   \<and> rawBytes [\<lparr>rule_Packets = 10, rule_Bytes = 100, rule_Rule = ''allow''\<rparr>,
         \<lparr>rule_Packets = 20, rule_Bytes = 200, rule_Rule = ''deny''\<rparr>,
         \<lparr>rule_Packets = 5, rule_Bytes = 50, rule_Rule = ''allow''\<rparr>] \<le> 2 ^ 53
   \<and> set (fst (rulesCounters ''filter'' ''INPUT''
        [\<lparr>rule_Packets = 5, rule_Bytes = 50, rule_Rule = ''allow''\<rparr>,
         \<lparr>rule_Packets = 20, rule_Bytes = 200, rule_Rule = ''deny''\<rparr>,
         \<lparr>rule_Packets = 10, rule_Bytes = 100, rule_Rule = ''allow''\<rparr>]))
     = set (fst (rulesCounters ''filter'' ''INPUT''
        [\<lparr>rule_Packets = 10, rule_Bytes = 100, rule_Rule = ''allow''\<rparr>,
         \<lparr>rule_Packets = 20, rule_Bytes = 200, rule_Rule = ''deny''\<rparr>,
         \<lparr>rule_Packets = 5, rule_Bytes = 50, rule_Rule = ''allow''\<rparr>]))"
proof -
  have m: "mset [\<lparr>rule_Packets = 5, rule_Bytes = 50, rule_Rule = ''allow''\<rparr>,
         \<lparr>rule_Packets = 20, rule_Bytes = 200, rule_Rule = ''deny''\<rparr>,
         \<lparr>rule_Packets = 10, rule_Bytes = 100, rule_Rule = ''allow''\<rparr>]
     = mset [\<lparr>rule_Packets = 10, rule_Bytes = 100, rule_Rule = ''allow''\<rparr>,
         \<lparr>rule_Packets = 20, rule_Bytes = 200, rule_Rule = ''deny''\<rparr>,
         \<lparr>rule_Packets = 5, rule_Bytes = 50, rule_Rule = ''allow''\<rparr>]"
    by (simp add: add_mset_commute)
  show ?thesis
    using m C3_order_insensitive [OF m, of "''filter''" "''INPUT''"]
    by (simp add: rawPackets_def rawBytes_def)
qed

text \<open>
  C3 as first stated fails beyond \<open>2 ^ 53\<close>, where float64 addition depends on the order:
  the rules with 9007199254740992, 1 and 1 packets merge to 9007199254740992 packets in
  this order and to 9007199254740994 packets when the large one comes last.
\<close>

theorem C3_counterexample:
  "mset [\<lparr>rule_Packets = 1, rule_Bytes = 0, rule_Rule = ''allow''\<rparr>,
         \<lparr>rule_Packets = 1, rule_Bytes = 0, rule_Rule = ''allow''\<rparr>,
         \<lparr>rule_Packets = 9007199254740992, rule_Bytes = 0, rule_Rule = ''allow''\<rparr>]
     = mset [\<lparr>rule_Packets = 9007199254740992, rule_Bytes = 0, rule_Rule = ''allow''\<rparr>,
         \<lparr>rule_Packets = 1, rule_Bytes = 0, rule_Rule = ''allow''\<rparr>,
         \<lparr>rule_Packets = 1, rule_Bytes = 0, rule_Rule = ''allow''\<rparr>]
   \<and> fst (rulesCounters ''filter'' ''INPUT''
        [\<lparr>rule_Packets = 9007199254740992, rule_Bytes = 0, rule_Rule = ''allow''\<rparr>,
         \<lparr>rule_Packets = 1, rule_Bytes = 0, rule_Rule = ''allow''\<rparr>,
         \<lparr>rule_Packets = 1, rule_Bytes = 0, rule_Rule = ''allow''\<rparr>])
     = [(''allow'', \<lparr>bytes = 0, packets = 9007199254740992\<rparr>)]
   \<and> fst (rulesCounters ''filter'' ''INPUT''
        [\<lparr>rule_Packets = 1, rule_Bytes = 0, rule_Rule = ''allow''\<rparr>,
         \<lparr>rule_Packets = 1, rule_Bytes = 0, rule_Rule = ''allow''\<rparr>,
         \<lparr>rule_Packets = 9007199254740992, rule_Bytes = 0, rule_Rule = ''allow''\<rparr>])
     = [(''allow'', \<lparr>bytes = 0, packets = 9007199254740994\<rparr>)]"
  by (simp add: rulesCounters_eval float64_eval add_mset_commute)

text \<open>
  Claim C8, as amended. With the default pattern (the identifier is the whole text of the
  rule) the dedup loop produces one entry per distinct rule text: the number of entries is
  the number of distinct texts, and it equals the number of rules when no two rules of the
  chain have the same text.
\<close>

theorem C8_default_pattern_entries:
  "length (fst (rulesCounters t c (deriveRules matchEverything raws))) = card (raw_body ` set raws)
   \<and> (distinct (map raw_body raws) \<longrightarrow>
        length (fst (rulesCounters t c (deriveRules matchEverything raws))) = length raws)"
proof -
  have "rule_Rule ` set (deriveRules matchEverything raws) = raw_body ` set raws"
    using deriveRules_matchEverything [of raws] by (metis list.set_map)
  then have n: "length (fst (rulesCounters t c (deriveRules matchEverything raws)))
                  = card (raw_body ` set raws)"
    by (simp add: length_rulesCounters)
  have "card (raw_body ` set raws) = length raws" if "distinct (map raw_body raws)"
    using distinct_card [OF that] by simp
  then show ?thesis using n by simp
qed

text \<open>An instance of C8: two rules with different texts give two entries.\<close>

theorem C8_distinct_bodies_example:
  "distinct (map raw_body
     [\<lparr>raw_Packets = 10, raw_Bytes = 100, raw_body = ''-A INPUT -s 10.0.0.1/32 -j DROP''\<rparr>,
      \<lparr>raw_Packets = 20, raw_Bytes = 200, raw_body = ''-A INPUT -s 10.0.0.2/32 -j DROP''\<rparr>])
   \<and> length (fst (rulesCounters ''filter'' ''INPUT'' (deriveRules matchEverything
     [\<lparr>raw_Packets = 10, raw_Bytes = 100, raw_body = ''-A INPUT -s 10.0.0.1/32 -j DROP''\<rparr>,
      \<lparr>raw_Packets = 20, raw_Bytes = 200, raw_body = ''-A INPUT -s 10.0.0.2/32 -j DROP''\<rparr>])))
     = 2"
  using C8_default_pattern_entries [of "''filter''" "''INPUT''"
     "[\<lparr>raw_Packets = 10, raw_Bytes = 100, raw_body = ''-A INPUT -s 10.0.0.1/32 -j DROP''\<rparr>,
      \<lparr>raw_Packets = 20, raw_Bytes = 200, raw_body = ''-A INPUT -s 10.0.0.2/32 -j DROP''\<rparr>]"]
  by simp

text \<open>
  C8 as first stated fails when a chain holds the same rule twice: the two rules collapse
  into one entry.
\<close>

theorem C8_counterexample:
  "length (fst (rulesCounters ''filter'' ''INPUT'' (deriveRules matchEverything
     [\<lparr>raw_Packets = 10, raw_Bytes = 100, raw_body = ''-A INPUT -j ACCEPT''\<rparr>,
      \<lparr>raw_Packets = 20, raw_Bytes = 200, raw_body = ''-A INPUT -j ACCEPT''\<rparr>]))) = 1
   \<and> length
     [\<lparr>raw_Packets = 10, raw_Bytes = 100, raw_body = ''-A INPUT -j ACCEPT''\<rparr>,
      \<lparr>raw_Packets = 20, raw_Bytes = 200, raw_body = ''-A INPUT -j ACCEPT''\<rparr>] = 2"
  by (simp add: matchEverything_def rulesCounters_eval)

section \<open>The metrics of a scrape\<close>

lemma desc_distinct:
  "scrapeDurationDesc \<noteq> scrapeSuccessDesc" "scrapeDurationDesc \<noteq> defaultBytesDesc"
  "scrapeDurationDesc \<noteq> defaultPacketsDesc" "scrapeDurationDesc \<noteq> ruleBytesDesc"
  "scrapeDurationDesc \<noteq> rulePacketsDesc" "scrapeSuccessDesc \<noteq> defaultBytesDesc"
  "scrapeSuccessDesc \<noteq> defaultPacketsDesc" "scrapeSuccessDesc \<noteq> ruleBytesDesc"
  "scrapeSuccessDesc \<noteq> rulePacketsDesc" "defaultBytesDesc \<noteq> defaultPacketsDesc"
  "defaultBytesDesc \<noteq> ruleBytesDesc" "defaultBytesDesc \<noteq> rulePacketsDesc"
  "defaultPacketsDesc \<noteq> ruleBytesDesc" "defaultPacketsDesc \<noteq> rulePacketsDesc"
  "ruleBytesDesc \<noteq> rulePacketsDesc"
  by (simp_all add: scrapeDurationDesc_def scrapeSuccessDesc_def defaultBytesDesc_def
      defaultPacketsDesc_def ruleBytesDesc_def rulePacketsDesc_def)

lemmas desc_neq = desc_distinct desc_distinct [symmetric]

text \<open>
  \<open>validString\<close> on some strings: text of one-byte characters, a two-byte and a four-byte
  character; a byte 0xFF, a lone continuation byte, an overlong form, a surrogate and a
  sequence cut short.
\<close>

lemma validString_examples:
  "validString ''-A INPUT -j ACCEPT''"
  "validString [CHR 0xC3, CHR 0xA9]"
  "validString [CHR 0xF0, CHR 0x9F, CHR 0x98, CHR 0x80]"
  "\<not> validString [CHR 0xFF]"
  "\<not> validString [CHR 0x80]"
  "\<not> validString [CHR 0xC0, CHR 0x80]"
  "\<not> validString [CHR 0xED, CHR 0xA0, CHR 0x80]"
  "\<not> validString [CHR 0xE2, CHR 0x82]"
  by (simp_all add: accept_def between_def)

text \<open>
  A send panics or sends the metric it asks for; it sends it when the label values are as
  many as the labels and valid UTF-8. So the metrics sent are a prefix of the metrics
  asked for, and all of them when every step is valid.
\<close>

lemma MustNewConstMetric_valid:
  "length lvs = length (variableLabels d) \<Longrightarrow> list_all validString lvs \<Longrightarrow>
   MustNewConstMetric d vt v lvs = Inr (constMetric d vt v lvs)"
  by (auto simp add: MustNewConstMetric_def find_None_iff list_all_iff split: option.splits)

lemma MustNewConstMetric_Inr:
  "MustNewConstMetric d vt v lvs = Inr m \<Longrightarrow> m = constMetric d vt v lvs"
  by (auto simp add: MustNewConstMetric_def split: if_splits option.splits)

lemma MustNewConstMetric_invalid:
  "MustNewConstMetric d vt v lvs = Inl (InvalidLabelValue s) \<Longrightarrow> s \<in> set lvs \<and> \<not> validString s"
  by (auto simp add: MustNewConstMetric_def find_Some_iff split: if_splits option.splits)

lemma MustNewConstMetric_cardinality:
  "MustNewConstMetric d vt v lvs = Inl (InconsistentCardinality a b) \<Longrightarrow>
   length lvs \<noteq> length (variableLabels d)"
  by (auto simp add: MustNewConstMetric_def split: if_splits option.splits)

lemma perform_valid:
  "list_all validStep steps \<Longrightarrow> perform steps = (requested steps, logged steps, None)"
  by (induction steps rule: perform.induct) (simp_all add: MustNewConstMetric_valid)

lemma perform_prefix: "\<exists>rest. requested steps = fst (perform steps) @ rest"
proof (induction steps rule: perform.induct)
  case 1
  then show ?case by simp
next
  case (2 l steps)
  then show ?case by (cases "perform steps") auto
next
  case (3 d vt v lvs steps)
  show ?case
  proof (cases "MustNewConstMetric d vt v lvs")
    case (Inl p)
    then show ?thesis by simp
  next
    case (Inr m)
    then show ?thesis
      using 3 [OF Inr] MustNewConstMetric_Inr [OF Inr] by (cases "perform steps") auto
  qed
qed

lemma perform_sent: "m \<in> set (fst (perform steps)) \<Longrightarrow> m \<in> set (requested steps)"
  using perform_prefix [of steps] by (metis Un_iff set_append)

lemma perform_filter_none:
  assumes "filter P (requested steps) = []"
  shows "filter P (fst (perform steps)) = []"
  using assms perform_sent [of _ steps] unfolding filter_empty_conv by blast

lemma perform_panic:
  assumes "snd (snd (perform steps)) = Some p"
  shows "\<exists>d vt v lvs. Send d vt v lvs \<in> set steps \<and> MustNewConstMetric d vt v lvs = Inl p"
  using assms
proof (induction steps rule: perform.induct)
  case 1
  then show ?case by simp
next
  case (2 l steps)
  then show ?case by (auto split: prod.splits)
next
  case (3 d vt v lvs steps)
  show ?case
  proof (cases "MustNewConstMetric d vt v lvs")
    case (Inl q)
    then show ?thesis using 3(2) by auto
  next
    case (Inr m)
    then have "snd (snd (perform steps)) = Some p"
      using 3(2) by (simp split: prod.splits)
    then show ?thesis using 3(1) [OF Inr] by auto
  qed
qed

lemma Send_requested:
  "Send d vt v lvs \<in> set steps \<Longrightarrow> constMetric d vt v lvs \<in> set (requested steps)"
  by (induction steps rule: requested.induct) auto

lemma requested_append [simp]: "requested (xs @ ys) = requested xs @ requested ys"
  by (induction xs rule: requested.induct) simp_all

lemma requested_concat: "requested (concat xss) = concat (map requested xss)"
  by (induction xss) simp_all

lemma requested_map_Log [simp]: "requested (map Log ls) = []"
  by (induction ls) simp_all

lemma logged_append [simp]: "logged (xs @ ys) = logged xs @ logged ys"
  by (induction xs rule: logged.induct) simp_all

text \<open>The metrics that the loops ask for.\<close>

lemma requested_ruleMetrics:
  "requested (ruleMetrics t c rc) =
     concat (map (\<lambda>(k, v).
       [constMetric rulePacketsDesc CounterValue (Float64 (packets v)) [t, c, k],
        constMetric ruleBytesDesc CounterValue (Float64 (bytes v)) [t, c, k]]) rc)"
  by (induction rc) (auto simp add: ruleMetrics_def)

lemma in_ruleMetrics:
  "m \<in> set (requested (ruleMetrics t c rc)) \<longleftrightarrow>
     (\<exists>(k, v) \<in> set rc.
        m = constMetric rulePacketsDesc CounterValue (Float64 (packets v)) [t, c, k]
        \<or> m = constMetric ruleBytesDesc CounterValue (Float64 (bytes v)) [t, c, k])"
  by (auto simp add: requested_ruleMetrics)

lemma requested_collectChain:
  "requested (collectChain t (c, ch)) =
     [constMetric defaultPacketsDesc CounterValue
        (Float64 (float64_of_uint64 (chain_Packets ch))) [t, c, chain_Policy ch],
      constMetric defaultBytesDesc CounterValue
        (Float64 (float64_of_uint64 (chain_Bytes ch))) [t, c, chain_Policy ch]]
     @ requested (ruleMetrics t c (fst (rulesCounters t c (chain_Rules ch))))"
  by (simp add: collectChain_def)

lemma in_collectChain:
  "m \<in> set (requested (collectChain t (c, ch))) \<Longrightarrow>
     take 2 (metric_labelValues m) = [t, c]
     \<and> metric_desc m \<in> {defaultPacketsDesc, defaultBytesDesc, rulePacketsDesc, ruleBytesDesc}
     \<and> metric_valType m = CounterValue
     \<and> length (metric_labelValues m) = length (variableLabels (metric_desc m))"
  by (auto simp add: requested_collectChain in_ruleMetrics constMetric_def
      defaultPacketsDesc_def defaultBytesDesc_def rulePacketsDesc_def ruleBytesDesc_def)

lemma in_collectTables_chain:
  assumes "m \<in> set (requested (collectTables tables))"
  shows "\<exists>t tb c ch. (t, tb) \<in> set tables \<and> (c, ch) \<in> set tb
           \<and> m \<in> set (requested (collectChain t (c, ch)))"
proof -
  obtain x where x: "x \<in> set tables" "m \<in> set (requested (collectTable x))"
    using assms by (auto simp add: collectTables_def requested_concat)
  obtain y where y: "y \<in> set (snd x)" "m \<in> set (requested (collectChain (fst x) y))"
    using x(2) by (cases x) (auto simp add: collectTable_def requested_concat)
  show ?thesis
    using x(1) y by (metis prod.collapse)
qed

lemma collectTables_desc:
  assumes "m \<in> set (requested (collectTables tables))"
  shows "metric_desc m \<in> {defaultPacketsDesc, defaultBytesDesc, rulePacketsDesc, ruleBytesDesc}"
  using in_collectTables_chain [OF assms] in_collectChain by blast

text \<open>The steps of a ruleset whose names are valid UTF-8 are valid.\<close>

lemma valid_ruleMetrics:
  assumes "validString t" and "validString c" and "\<forall>k \<in> fst ` set rc. validString k"
  shows "list_all validStep (ruleMetrics t c rc)"
  using assms
  by (induction rc) (auto simp add: ruleMetrics_def rulePacketsDesc_def ruleBytesDesc_def)

lemma valid_collectChain:
  assumes "validString t" and "validString c" and "validString (chain_Policy ch)"
    and "\<forall>r \<in> set (chain_Rules ch). validString (rule_Rule r)"
  shows "list_all validStep (collectChain t (c, ch))"
proof -
  have "\<forall>k \<in> fst ` set (fst (rulesCounters t c (chain_Rules ch))). validString k"
    using assms(4) by (simp add: keys_rulesCounters)
  then have "list_all validStep (ruleMetrics t c (fst (rulesCounters t c (chain_Rules ch))))"
    using assms(1,2) by (intro valid_ruleMetrics)
  moreover have "list_all validStep
      (map Log (snd (rulesCounters t c (chain_Rules ch))))"
    by (simp add: list_all_iff)
  ultimately show ?thesis
    using assms(1,2,3)
    by (simp add: collectChain_def defaultPacketsDesc_def defaultBytesDesc_def)
qed

lemma valid_collectTables:
  assumes "validTables tables"
  shows "list_all validStep (collectTables tables)"
proof -
  have "list_all validStep (collectChain t (c, ch))"
    if t: "(t, tb) \<in> set tables" and c: "(c, ch) \<in> set tb" for t tb c ch
  proof -
    have 1: "validString t \<and> (\<forall>(c, ch) \<in> set tb. validString c \<and> validString (chain_Policy ch)
             \<and> (\<forall>r \<in> set (chain_Rules ch). validString (rule_Rule r)))"
      using assms t unfolding validTables_def by blast
    then have 2: "validString c \<and> validString (chain_Policy ch)
             \<and> (\<forall>r \<in> set (chain_Rules ch). validString (rule_Rule r))"
      using c by blast
    show ?thesis using 1 2 by (intro valid_collectChain) simp_all
  qed
  then have "list_all validStep (collectTable (t, tb))" if "(t, tb) \<in> set tables" for t tb
    using that by (auto simp add: collectTable_def list_all_iff)
  then show ?thesis
    by (auto simp add: collectTables_def list_all_iff)
qed

text \<open>The two paths of Collect.\<close>

lemma send_duration:
  "MustNewConstMetric scrapeDurationDesc GaugeValue v [] =
     Inr (constMetric scrapeDurationDesc GaugeValue v [])"
  by (simp add: MustNewConstMetric_valid scrapeDurationDesc_def)

lemma send_success:
  "MustNewConstMetric scrapeSuccessDesc GaugeValue v [] =
     Inr (constMetric scrapeSuccessDesc GaugeValue v [])"
  by (simp add: MustNewConstMetric_valid scrapeSuccessDesc_def)

lemma Collect_failed:
  "scrapeFailed tables err \<Longrightarrow>
   Collect d tables err =
     ([constMetric scrapeDurationDesc GaugeValue (DurationSeconds d) [],
       constMetric scrapeSuccessDesc GaugeValue (Float64 0) []],
      [LogError (case err of Some e \<Rightarrow> e | None \<Rightarrow> noOutputError)], None)"
  by (cases err)
    (auto simp add: Collect_def scrapeFailed_def Let_def send_duration send_success)

lemma Collect_ok:
  "\<not> scrapeFailed tables err \<Longrightarrow>
   fst (Collect d tables err) =
     [constMetric scrapeDurationDesc GaugeValue (DurationSeconds d) [],
      constMetric scrapeSuccessDesc GaugeValue (Float64 1) []]
     @ fst (perform (collectTables tables))
   \<and> snd (Collect d tables err) = snd (perform (collectTables tables))"
  by (simp add: Collect_def scrapeFailed_def Let_def send_duration send_success
      split: prod.splits)

lemma Collect_valid:
  assumes "\<not> scrapeFailed tables err" and "validTables tables"
  shows "Collect d tables err =
     ([constMetric scrapeDurationDesc GaugeValue (DurationSeconds d) [],
       constMetric scrapeSuccessDesc GaugeValue (Float64 1) []]
      @ requested (collectTables tables),
      logged (collectTables tables), None)"
  using Collect_ok [OF assms(1), of d] perform_valid [OF valid_collectTables [OF assms(2)]]
  by (metis fst_conv prod.collapse snd_conv)

lemma Collect_sent:
  assumes "m \<in> set (fst (Collect d tables err))"
  shows "metric_valType m = GaugeValue \<and> metric_labelValues m = []
           \<and> metric_desc m \<in> {scrapeDurationDesc, scrapeSuccessDesc}
         \<or> m \<in> set (requested (collectTables tables))"
proof (cases "scrapeFailed tables err")
  case True
  then show ?thesis using assms by (auto simp add: Collect_failed constMetric_def)
next
  case False
  then show ?thesis
    using assms perform_sent [of m "collectTables tables"]
    by (auto simp add: Collect_ok constMetric_def)
qed

text \<open>
  Every call of \<^verbatim>\<open>MustNewConstMetric\<close> in Collect gives as many label values as the
  descriptor has labels, so Collect does not panic on their number.
\<close>

lemma Collect_label_arity:
  "snd (snd (Collect d tables err)) \<noteq> Some (InconsistentCardinality a b)"
proof (cases "scrapeFailed tables err")
  case True
  then show ?thesis by (simp add: Collect_failed)
next
  case False
  show ?thesis
  proof
    assume "snd (snd (Collect d tables err)) = Some (InconsistentCardinality a b)"
    then have "snd (snd (perform (collectTables tables))) = Some (InconsistentCardinality a b)"
      using Collect_ok [OF False, of d] by simp
    then obtain dsc vt v lvs where s: "Send dsc vt v lvs \<in> set (collectTables tables)"
      and p: "MustNewConstMetric dsc vt v lvs = Inl (InconsistentCardinality a b)"
      using perform_panic by blast
    have "constMetric dsc vt v lvs \<in> set (requested (collectTables tables))"
      using s by (rule Send_requested)
    then have "length lvs = length (variableLabels dsc)"
      using in_collectTables_chain in_collectChain by (fastforce simp add: constMetric_def)
    then show False using MustNewConstMetric_cardinality [OF p] by simp
  qed
qed









text \<open>The value of every counter metric that Collect asks for.\<close>

lemma collectChain_values:
  assumes "m \<in> set (requested (collectChain t (c, ch)))"
  shows "(\<exists>x. metric_val m = Float64 x \<and> isFloat64 x)
      \<and> (metric_desc m = defaultPacketsDesc \<longrightarrow>
           metric_labelValues m = [t, c, chain_Policy ch]
           \<and> metric_val m = Float64 (float64_of_uint64 (chain_Packets ch)))
      \<and> (metric_desc m = defaultBytesDesc \<longrightarrow>
           metric_labelValues m = [t, c, chain_Policy ch]
           \<and> metric_val m = Float64 (float64_of_uint64 (chain_Bytes ch)))
      \<and> (metric_desc m = rulePacketsDesc \<longrightarrow>
           (\<exists>k \<in> rule_Rule ` set (chain_Rules ch). metric_labelValues m = [t, c, k]
              \<and> metric_val m =
                  Float64 (float64_fold (map rule_Packets (rulesWithIdentifier k (chain_Rules ch))))))
      \<and> (metric_desc m = ruleBytesDesc \<longrightarrow>
           (\<exists>k \<in> rule_Rule ` set (chain_Rules ch). metric_labelValues m = [t, c, k]
              \<and> metric_val m =
                  Float64 (float64_fold (map rule_Bytes (rulesWithIdentifier k (chain_Rules ch))))))"
proof -
  have conv: "isFloat64 (float64_of_uint64 w)" for w
    by (simp add: float64_of_uint64_def isFloat64_float64_round)
  consider
    (dp) "m = constMetric defaultPacketsDesc CounterValue
            (Float64 (float64_of_uint64 (chain_Packets ch))) [t, c, chain_Policy ch]"
  | (db) "m = constMetric defaultBytesDesc CounterValue
            (Float64 (float64_of_uint64 (chain_Bytes ch))) [t, c, chain_Policy ch]"
  | (rp) k v where "(k, v) \<in> set (fst (rulesCounters t c (chain_Rules ch)))"
      "m = constMetric rulePacketsDesc CounterValue (Float64 (packets v)) [t, c, k]"
  | (rb) k v where "(k, v) \<in> set (fst (rulesCounters t c (chain_Rules ch)))"
      "m = constMetric ruleBytesDesc CounterValue (Float64 (bytes v)) [t, c, k]"
    using assms by (auto simp add: requested_collectChain in_ruleMetrics)
  then show ?thesis
  proof cases
    case dp
    then show ?thesis by (simp add: constMetric_def desc_neq conv)
  next
    case db
    then show ?thesis by (simp add: constMetric_def desc_neq conv)
  next
    case rp
    then show ?thesis
      using entry_rulesCounters [OF rp(1)]
      by (simp add: constMetric_def desc_neq isFloat64_float64_fold)
  next
    case rb
    then show ?thesis
      using entry_rulesCounters [OF rb(1)]
      by (simp add: constMetric_def desc_neq isFloat64_float64_fold)
  qed
qed

lemma Collect_values:
  assumes "m \<in> set (fst (Collect d tables err))"
  shows "(metric_valType m = CounterValue \<longrightarrow> (\<exists>x. metric_val m = Float64 x \<and> isFloat64 x))
      \<and> (metric_desc m = defaultPacketsDesc \<longrightarrow>
           (\<exists>(t, tb) \<in> set tables. \<exists>(c, ch) \<in> set tb.
              metric_labelValues m = [t, c, chain_Policy ch]
              \<and> metric_val m = Float64 (float64_of_uint64 (chain_Packets ch))))
      \<and> (metric_desc m = defaultBytesDesc \<longrightarrow>
           (\<exists>(t, tb) \<in> set tables. \<exists>(c, ch) \<in> set tb.
              metric_labelValues m = [t, c, chain_Policy ch]
              \<and> metric_val m = Float64 (float64_of_uint64 (chain_Bytes ch))))
      \<and> (metric_desc m = rulePacketsDesc \<longrightarrow>
           (\<exists>(t, tb) \<in> set tables. \<exists>(c, ch) \<in> set tb.
              \<exists>k \<in> rule_Rule ` set (chain_Rules ch). metric_labelValues m = [t, c, k]
                \<and> metric_val m =
                    Float64 (float64_fold (map rule_Packets (rulesWithIdentifier k (chain_Rules ch))))))
      \<and> (metric_desc m = ruleBytesDesc \<longrightarrow>
           (\<exists>(t, tb) \<in> set tables. \<exists>(c, ch) \<in> set tb.
              \<exists>k \<in> rule_Rule ` set (chain_Rules ch). metric_labelValues m = [t, c, k]
                \<and> metric_val m =
                    Float64 (float64_fold (map rule_Bytes (rulesWithIdentifier k (chain_Rules ch))))))"
proof -
  consider (gauge) "metric_valType m = GaugeValue"
      "metric_desc m \<in> {scrapeDurationDesc, scrapeSuccessDesc}"
    | (chain) "m \<in> set (requested (collectTables tables))"
    using Collect_sent [OF assms] by blast
  then show ?thesis
  proof cases
    case gauge
    then show ?thesis using desc_neq by auto
  next
    case chain
    then obtain t tb c ch where t: "(t, tb) \<in> set tables" and c: "(c, ch) \<in> set tb"
      and m: "m \<in> set (requested (collectChain t (c, ch)))"
      using in_collectTables_chain by blast
    note v = collectChain_values [OF m]
    have ex: "\<exists>(t', tb') \<in> set tables. \<exists>(c', ch') \<in> set tb'. Q t' c' ch'" if "Q t c ch" for Q
      using that t c by (auto intro!: bexI [of _ "(t, tb)"] bexI [of _ "(c, ch)"])
    have 1: "metric_valType m = CounterValue \<longrightarrow> (\<exists>x. metric_val m = Float64 x \<and> isFloat64 x)"
      using v by blast
    have 2: "metric_desc m = defaultPacketsDesc \<longrightarrow>
           (\<exists>(t, tb) \<in> set tables. \<exists>(c, ch) \<in> set tb.
              metric_labelValues m = [t, c, chain_Policy ch]
              \<and> metric_val m = Float64 (float64_of_uint64 (chain_Packets ch)))"
    proof
      assume "metric_desc m = defaultPacketsDesc"
      then have "(\<lambda>t c ch. metric_labelValues m = [t, c, chain_Policy ch]
              \<and> metric_val m = Float64 (float64_of_uint64 (chain_Packets ch))) t c ch"
        using v by blast
      then show "\<exists>(t, tb) \<in> set tables. \<exists>(c, ch) \<in> set tb.
              metric_labelValues m = [t, c, chain_Policy ch]
              \<and> metric_val m = Float64 (float64_of_uint64 (chain_Packets ch))"
        by (rule ex [of "(\<lambda>t c ch. metric_labelValues m = [t, c, chain_Policy ch]
              \<and> metric_val m = Float64 (float64_of_uint64 (chain_Packets ch)))"])
    qed
    have 3: "metric_desc m = defaultBytesDesc \<longrightarrow>
           (\<exists>(t, tb) \<in> set tables. \<exists>(c, ch) \<in> set tb.
              metric_labelValues m = [t, c, chain_Policy ch]
              \<and> metric_val m = Float64 (float64_of_uint64 (chain_Bytes ch)))"
    proof
      assume "metric_desc m = defaultBytesDesc"
      then have "(\<lambda>t c ch. metric_labelValues m = [t, c, chain_Policy ch]
              \<and> metric_val m = Float64 (float64_of_uint64 (chain_Bytes ch))) t c ch"
        using v by blast
      then show "\<exists>(t, tb) \<in> set tables. \<exists>(c, ch) \<in> set tb.
              metric_labelValues m = [t, c, chain_Policy ch]
              \<and> metric_val m = Float64 (float64_of_uint64 (chain_Bytes ch))"
        by (rule ex [of "(\<lambda>t c ch. metric_labelValues m = [t, c, chain_Policy ch]
              \<and> metric_val m = Float64 (float64_of_uint64 (chain_Bytes ch)))"])
    qed
    have 4: "metric_desc m = rulePacketsDesc \<longrightarrow>
           (\<exists>(t, tb) \<in> set tables. \<exists>(c, ch) \<in> set tb.
              \<exists>k \<in> rule_Rule ` set (chain_Rules ch). metric_labelValues m = [t, c, k]
                \<and> metric_val m =
                    Float64 (float64_fold (map rule_Packets (rulesWithIdentifier k (chain_Rules ch)))))"
    proof
      assume "metric_desc m = rulePacketsDesc"
      then have "(\<lambda>t c ch. \<exists>k \<in> rule_Rule ` set (chain_Rules ch). metric_labelValues m = [t, c, k]
                \<and> metric_val m =
                    Float64 (float64_fold (map rule_Packets (rulesWithIdentifier k (chain_Rules ch))))) t c ch"
        using v by blast
      then show "\<exists>(t, tb) \<in> set tables. \<exists>(c, ch) \<in> set tb.
              \<exists>k \<in> rule_Rule ` set (chain_Rules ch). metric_labelValues m = [t, c, k]
                \<and> metric_val m =
                    Float64 (float64_fold (map rule_Packets (rulesWithIdentifier k (chain_Rules ch))))"
        by (rule ex [of "(\<lambda>t c ch. \<exists>k \<in> rule_Rule ` set (chain_Rules ch). metric_labelValues m = [t, c, k]
                \<and> metric_val m =
                    Float64 (float64_fold (map rule_Packets (rulesWithIdentifier k (chain_Rules ch)))))"])
    qed
    have 5: "metric_desc m = ruleBytesDesc \<longrightarrow>
           (\<exists>(t, tb) \<in> set tables. \<exists>(c, ch) \<in> set tb.
              \<exists>k \<in> rule_Rule ` set (chain_Rules ch). metric_labelValues m = [t, c, k]
                \<and> metric_val m =
                    Float64 (float64_fold (map rule_Bytes (rulesWithIdentifier k (chain_Rules ch)))))"
    proof
      assume "metric_desc m = ruleBytesDesc"
      then have "(\<lambda>t c ch. \<exists>k \<in> rule_Rule ` set (chain_Rules ch). metric_labelValues m = [t, c, k]
                \<and> metric_val m =
                    Float64 (float64_fold (map rule_Bytes (rulesWithIdentifier k (chain_Rules ch))))) t c ch"
        using v by blast
      then show "\<exists>(t, tb) \<in> set tables. \<exists>(c, ch) \<in> set tb.
              \<exists>k \<in> rule_Rule ` set (chain_Rules ch). metric_labelValues m = [t, c, k]
                \<and> metric_val m =
                    Float64 (float64_fold (map rule_Bytes (rulesWithIdentifier k (chain_Rules ch))))"
        by (rule ex [of "(\<lambda>t c ch. \<exists>k \<in> rule_Rule ` set (chain_Rules ch). metric_labelValues m = [t, c, k]
                \<and> metric_val m =
                    Float64 (float64_fold (map rule_Bytes (rulesWithIdentifier k (chain_Rules ch)))))"])
    qed
    show ?thesis using 1 2 3 4 5 by blast
  qed
qed

text \<open>
  Claim C10. Every counter value that \<^verbatim>\<open>Collect\<close> exports is a float64 obtained from the
  integer counters by conversion and float64 addition: a default-policy metric carries the
  float64 conversion of the chain's counter, and a metric of an identifier carries the
  float64 fold of the counters of the chain's rules with that identifier. The fold
  converts the first counter and adds every further converted counter, left to right.
  Conversion and addition give a float64, the one nearest to the exact integer, and among
  two nearest ones the one with the even significand. Hence they are exact up to
  \<open>2 ^ 53\<close>, a fold is exact when the exact sum is at most \<open>2 ^ 53\<close>, and beyond that they
  are not: 9007199254740993 is converted to 9007199254740992, 9007199254740995 to
  9007199254740996, and the fold of 9007199254740992 and 1 is not 9007199254740993.
\<close>

theorem C10_exported_values_are_float64:
  "(\<forall>m \<in> set (fst (Collect d tables err)).
      (metric_valType m = CounterValue \<longrightarrow> (\<exists>x. metric_val m = Float64 x \<and> isFloat64 x))
      \<and> (metric_desc m = defaultPacketsDesc \<longrightarrow>
           (\<exists>(t, tb) \<in> set tables. \<exists>(c, ch) \<in> set tb.
              metric_labelValues m = [t, c, chain_Policy ch]
              \<and> metric_val m = Float64 (float64_of_uint64 (chain_Packets ch))))
      \<and> (metric_desc m = defaultBytesDesc \<longrightarrow>
           (\<exists>(t, tb) \<in> set tables. \<exists>(c, ch) \<in> set tb.
              metric_labelValues m = [t, c, chain_Policy ch]
              \<and> metric_val m = Float64 (float64_of_uint64 (chain_Bytes ch))))
      \<and> (metric_desc m = rulePacketsDesc \<longrightarrow>
           (\<exists>(t, tb) \<in> set tables. \<exists>(c, ch) \<in> set tb.
              \<exists>k \<in> rule_Rule ` set (chain_Rules ch). metric_labelValues m = [t, c, k]
                \<and> metric_val m =
                    Float64 (float64_fold (map rule_Packets (rulesWithIdentifier k (chain_Rules ch))))))
      \<and> (metric_desc m = ruleBytesDesc \<longrightarrow>
           (\<exists>(t, tb) \<in> set tables. \<exists>(c, ch) \<in> set tb.
              \<exists>k \<in> rule_Rule ` set (chain_Rules ch). metric_labelValues m = [t, c, k]
                \<and> metric_val m =
                    Float64 (float64_fold (map rule_Bytes (rulesWithIdentifier k (chain_Rules ch)))))))
   \<and> float64_fold [w] = float64_of_uint64 w
   \<and> (ws \<noteq> [] \<longrightarrow>
        float64_fold (ws @ [w]) = float64_add (float64_fold ws) (float64_of_uint64 w))
   \<and> isFloat64 (float64_of_uint64 w)
   \<and> (\<forall>y. isFloat64 y \<longrightarrow> absdiff (float64_of_uint64 w) (unat w) \<le> absdiff y (unat w))
   \<and> (\<forall>y. isFloat64 y \<and> y \<noteq> float64_of_uint64 w
            \<and> absdiff y (unat w) = absdiff (float64_of_uint64 w) (unat w) \<longrightarrow>
          even (float64_of_uint64 w div 2 ^ (bitlen (unat w) - 53)))
   \<and> isFloat64 (float64_add a b)
   \<and> (\<forall>y. isFloat64 y \<longrightarrow> absdiff (float64_add a b) (a + b) \<le> absdiff y (a + b))
   \<and> (\<forall>y. isFloat64 y \<and> y \<noteq> float64_add a b
            \<and> absdiff y (a + b) = absdiff (float64_add a b) (a + b) \<longrightarrow>
          even (float64_add a b div 2 ^ (bitlen (a + b) - 53)))
   \<and> (unat w \<le> 2 ^ 53 \<longrightarrow> float64_of_uint64 w = unat w)
   \<and> (a + b \<le> 2 ^ 53 \<longrightarrow> float64_add a b = a + b)
   \<and> (sum_list (map unat ws) \<le> 2 ^ 53 \<longrightarrow> float64_fold ws = sum_list (map unat ws))
   \<and> float64_of_uint64 9007199254740993 = 9007199254740992
   \<and> float64_of_uint64 9007199254740995 = 9007199254740996
   \<and> float64_fold [9007199254740992, 1] \<noteq> 9007199254740992 + 1"
proof -
  have sent: "\<forall>m \<in> set (fst (Collect d tables err)).
      (metric_valType m = CounterValue \<longrightarrow> (\<exists>x. metric_val m = Float64 x \<and> isFloat64 x))
      \<and> (metric_desc m = defaultPacketsDesc \<longrightarrow>
           (\<exists>(t, tb) \<in> set tables. \<exists>(c, ch) \<in> set tb.
              metric_labelValues m = [t, c, chain_Policy ch]
              \<and> metric_val m = Float64 (float64_of_uint64 (chain_Packets ch))))
      \<and> (metric_desc m = defaultBytesDesc \<longrightarrow>
           (\<exists>(t, tb) \<in> set tables. \<exists>(c, ch) \<in> set tb.
              metric_labelValues m = [t, c, chain_Policy ch]
              \<and> metric_val m = Float64 (float64_of_uint64 (chain_Bytes ch))))
      \<and> (metric_desc m = rulePacketsDesc \<longrightarrow>
           (\<exists>(t, tb) \<in> set tables. \<exists>(c, ch) \<in> set tb.
              \<exists>k \<in> rule_Rule ` set (chain_Rules ch). metric_labelValues m = [t, c, k]
                \<and> metric_val m =
                    Float64 (float64_fold (map rule_Packets (rulesWithIdentifier k (chain_Rules ch))))))
      \<and> (metric_desc m = ruleBytesDesc \<longrightarrow>
           (\<exists>(t, tb) \<in> set tables. \<exists>(c, ch) \<in> set tb.
              \<exists>k \<in> rule_Rule ` set (chain_Rules ch). metric_labelValues m = [t, c, k]
                \<and> metric_val m =
                    Float64 (float64_fold (map rule_Bytes (rulesWithIdentifier k (chain_Rules ch))))))"
    using Collect_values by blast
  have fold: "float64_fold [w] = float64_of_uint64 w
    \<and> (ws \<noteq> [] \<longrightarrow>
        float64_fold (ws @ [w]) = float64_add (float64_fold ws) (float64_of_uint64 w))"
    by (simp add: float64_fold_snoc)
  have conv: "isFloat64 (float64_of_uint64 w)
   \<and> (\<forall>y. isFloat64 y \<longrightarrow> absdiff (float64_of_uint64 w) (unat w) \<le> absdiff y (unat w))
   \<and> (\<forall>y. isFloat64 y \<and> y \<noteq> float64_of_uint64 w
            \<and> absdiff y (unat w) = absdiff (float64_of_uint64 w) (unat w) \<longrightarrow>
          even (float64_of_uint64 w div 2 ^ (bitlen (unat w) - 53)))"
    unfolding float64_of_uint64_def
    using isFloat64_float64_round float64_round_nearest float64_round_tie_even by blast
  have add: "isFloat64 (float64_add a b)
   \<and> (\<forall>y. isFloat64 y \<longrightarrow> absdiff (float64_add a b) (a + b) \<le> absdiff y (a + b))
   \<and> (\<forall>y. isFloat64 y \<and> y \<noteq> float64_add a b
            \<and> absdiff y (a + b) = absdiff (float64_add a b) (a + b) \<longrightarrow>
          even (float64_add a b div 2 ^ (bitlen (a + b) - 53)))"
    unfolding float64_add_def
    using isFloat64_float64_round float64_round_nearest float64_round_tie_even by blast
  have exact: "(unat w \<le> 2 ^ 53 \<longrightarrow> float64_of_uint64 w = unat w)
   \<and> (a + b \<le> 2 ^ 53 \<longrightarrow> float64_add a b = a + b)
   \<and> (sum_list (map unat ws) \<le> 2 ^ 53 \<longrightarrow> float64_fold ws = sum_list (map unat ws))"
    using float64_of_uint64_exact float64_add_exact float64_fold_exact by blast
  have beyond: "float64_of_uint64 9007199254740993 = 9007199254740992
   \<and> float64_of_uint64 9007199254740995 = 9007199254740996
   \<and> float64_fold [9007199254740992, 1] \<noteq> 9007199254740992 + 1"
    by (simp add: float64_eval)
  show ?thesis
    using sent fold conv add exact beyond by blast
qed

text \<open>
  An instance of C10: a chain with two rules \<^verbatim>\<open>allow\<close> of 10 and 20 packets, and the
  conversion of 9007199254740993, which lies between the float64 values 9007199254740992
  and 9007199254740994.
\<close>

theorem C10_float64_example:
  "constMetric rulePacketsDesc CounterValue (Float64 30) [''filter'', ''INPUT'', ''allow'']
     \<in> set (fst (Collect 1500000 [(''filter'', [(''INPUT'',
          \<lparr>chain_Policy = ''ACCEPT'', chain_Packets = 7, chain_Bytes = 70, chain_Rules =
            [\<lparr>rule_Packets = 10, rule_Bytes = 100, rule_Rule = ''allow''\<rparr>,
             \<lparr>rule_Packets = 20, rule_Bytes = 200, rule_Rule = ''allow''\<rparr>]\<rparr>)])] None))
   \<and> isFloat64 30
   \<and> float64_fold (map rule_Packets (rulesWithIdentifier ''allow''
            [\<lparr>rule_Packets = 10, rule_Bytes = 100, rule_Rule = ''allow''\<rparr>,
             \<lparr>rule_Packets = 20, rule_Bytes = 200, rule_Rule = ''allow''\<rparr>])) = 30
   \<and> float64_of_uint64 7 = 7
   \<and> float64_fold [10, 20] = 30
   \<and> isFloat64 9007199254740994
   \<and> absdiff (float64_of_uint64 9007199254740993) 9007199254740993
       \<le> absdiff 9007199254740994 9007199254740993
   \<and> even (float64_of_uint64 9007199254740993 div 2 ^ (bitlen 9007199254740993 - 53))"
proof -
  let ?rules = "[\<lparr>rule_Packets = 10, rule_Bytes = 100, rule_Rule = ''allow''\<rparr>,
             \<lparr>rule_Packets = 20, rule_Bytes = 200, rule_Rule = ''allow''\<rparr>]"
  let ?ch = "\<lparr>chain_Policy = ''ACCEPT'', chain_Packets = 7, chain_Bytes = 70,
             chain_Rules = ?rules\<rparr>"
  let ?tables = "[(''filter'', [(''INPUT'', ?ch)])]"
  let ?m = "constMetric rulePacketsDesc CounterValue (Float64 30)
              [''filter'', ''INPUT'', ''allow'']"
  note small = C10_exported_values_are_float64 [of 1500000 ?tables None 7 "[10, 20]" 0 0]
  note big = C10_exported_values_are_float64 [of 1500000 ?tables None 9007199254740993 "[]" 0 0]
  have valid: "validTables ?tables" by (simp add: validTables_def)
  have ok: "\<not> scrapeFailed ?tables None" by (simp add: scrapeFailed_def)
  have m: "?m \<in> set (fst (Collect 1500000 ?tables None))"
    by (simp add: Collect_valid [OF ok valid] collectTables_def collectTable_def
        requested_collectChain requested_ruleMetrics rulesCounters_eval float64_eval)
  note at_m = small [THEN conjunct1, THEN bspec, OF m]
  have i: "isFloat64 30"
    using at_m by (simp add: constMetric_def)
  have f: "float64_fold (map rule_Packets (rulesWithIdentifier ''allow'' ?rules)) = 30"
    using at_m by (simp add: constMetric_def)
  have c: "float64_of_uint64 7 = 7" using small by simp
  have s: "float64_fold [10, 20] = 30" using small by simp
  have y: "isFloat64 9007199254740994" by (simp add: isFloat64_def)
  have v: "float64_of_uint64 9007199254740993 = 9007199254740992" using big by blast
  have u: "unat (9007199254740993 :: 64 word) = 9007199254740993" by simp
  have n: "absdiff (float64_of_uint64 9007199254740993) 9007199254740993
       \<le> absdiff 9007199254740994 9007199254740993"
    using big y unfolding u by blast
  have ne: "9007199254740994 \<noteq> float64_of_uint64 9007199254740993"
    by (simp add: v)
  have tie: "absdiff 9007199254740994 9007199254740993
          = absdiff (float64_of_uint64 9007199254740993) 9007199254740993"
    by (simp add: v absdiff_def)
  have e: "even (float64_of_uint64 9007199254740993 div 2 ^ (bitlen 9007199254740993 - 53))"
    using big y ne tie unfolding u by blast
  show ?thesis using m i f c s y n e by blast
qed

text \<open>
  Claim C4. When the scrape fails (\<^verbatim>\<open>GetTables\<close> returned an error, or no table at all, which
  \<^verbatim>\<open>Collect\<close> turns into an error) the metrics sent are the duration and the scrape-success
  gauge with value 0 and nothing else, so no default-policy and no per-identifier metric,
  and Collect does not panic; otherwise exactly one scrape-success gauge is sent, with
  value 1, whether or not a later metric makes Collect panic.
\<close>

theorem C4_scrape_success_gauge:
  "(err \<noteq> None \<or> tables = [] \<longrightarrow>
      fst (Collect d tables err) =
        [constMetric scrapeDurationDesc GaugeValue (DurationSeconds d) [],
         constMetric scrapeSuccessDesc GaugeValue (Float64 0) []]
      \<and> (\<forall>m \<in> set (fst (Collect d tables err)).
            metric_desc m \<notin> {defaultPacketsDesc, defaultBytesDesc, rulePacketsDesc, ruleBytesDesc})
      \<and> snd (snd (Collect d tables err)) = None)
   \<and> (err = None \<and> tables \<noteq> [] \<longrightarrow>
      filter (\<lambda>m. metric_desc m = scrapeSuccessDesc) (fst (Collect d tables err)) =
        [constMetric scrapeSuccessDesc GaugeValue (Float64 1) []])"
proof -
  have fail: "fst (Collect d tables err) =
        [constMetric scrapeDurationDesc GaugeValue (DurationSeconds d) [],
         constMetric scrapeSuccessDesc GaugeValue (Float64 0) []]
      \<and> snd (snd (Collect d tables err)) = None"
    if "err \<noteq> None \<or> tables = []"
    using that by (simp add: Collect_failed scrapeFailed_def)
  have "filter (\<lambda>m. metric_desc m = scrapeSuccessDesc) (requested (collectTables tables)) = []"
    unfolding filter_empty_conv using collectTables_desc desc_neq by fastforce
  then have none:
    "filter (\<lambda>m. metric_desc m = scrapeSuccessDesc) (fst (perform (collectTables tables))) = []"
    by (rule perform_filter_none)
  have ok: "filter (\<lambda>m. metric_desc m = scrapeSuccessDesc) (fst (Collect d tables err)) =
        [constMetric scrapeSuccessDesc GaugeValue (Float64 1) []]"
    if "err = None \<and> tables \<noteq> []"
    using that none
    by (simp add: Collect_ok scrapeFailed_def constMetric_def desc_neq)
  show ?thesis
    using fail ok by (auto simp add: constMetric_def desc_neq)
qed

text \<open>Instances of C4: a scrape whose \<^verbatim>\<open>GetTables\<close> failed, and a scrape of one table.\<close>

theorem C4_scrape_examples:
  "fst (Collect 1500000 [] (Some ''exit status 4'')) =
     [constMetric scrapeDurationDesc GaugeValue (DurationSeconds 1500000) [],
      constMetric scrapeSuccessDesc GaugeValue (Float64 0) []]
   \<and> filter (\<lambda>m. metric_desc m = scrapeSuccessDesc)
       (fst (Collect 1500000
          [(''filter'', [(''INPUT'', \<lparr>chain_Policy = ''ACCEPT'', chain_Packets = 7,
              chain_Bytes = 70, chain_Rules = []\<rparr>)])] None)) =
     [constMetric scrapeSuccessDesc GaugeValue (Float64 1) []]"
  using C4_scrape_success_gauge [of "Some ''exit status 4''" "[]" 1500000]
    C4_scrape_success_gauge [of None
      "[(''filter'', [(''INPUT'', \<lparr>chain_Policy = ''ACCEPT'', chain_Packets = 7,
              chain_Bytes = 70, chain_Rules = []\<rparr>)])]" 1500000]
  by simp

text \<open>
  Claim C5. When \<^verbatim>\<open>GetTables\<close> returns no error and no table, the scrape is a failure: the
  scrape-success gauge is 0, no other metric but the duration is sent, the error logged
  is the one that names the missing output of iptables-save, and Collect does not panic.
\<close>

theorem C5_no_tables_is_failure:
  "Collect d [] None =
     ([constMetric scrapeDurationDesc GaugeValue (DurationSeconds d) [],
       constMetric scrapeSuccessDesc GaugeValue (Float64 0) []],
      [LogError ''no output from iptables-save; this is probably due to insufficient permissions''],
      None)"
  by (simp add: Collect_failed scrapeFailed_def noOutputError_def)




section \<open>Construction of the collector\<close>

text \<open>
  Claim C6. A pattern that does not compile is rejected when the collector is constructed:
  NewCollector panics, and \<^verbatim>\<open>main\<close> started with that pattern (given by the flag, or the
  default when the flag is absent) ends with the panic, so it
  registers no collector and serves nothing. A pattern that compiles gives the collector
  holding the compiled expression, and \<^verbatim>\<open>main\<close> goes on to serve with it. Matching a rule with
  the compiled expression (\<open>matcher\<close>, a parameter) has no error case: every rule either gets its
  identifier or is left out.
\<close>

theorem C6_invalid_pattern_rejected:
  "(compile captureRE = Inl e \<longrightarrow>
      NewCollector compile captureRE = Inl (CompilePanic captureRE e)
      \<and> (flagValue ''.*'' (iptables_capture_re fl) = captureRE \<longrightarrow>
           main compile fl = Inl (CompilePanic captureRE e)))
   \<and> (compile captureRE = Inr regexp \<longrightarrow>
      NewCollector compile captureRE = Inr \<lparr>capture = regexp\<rparr>
      \<and> (flagValue ''.*'' (iptables_capture_re fl) = captureRE \<longrightarrow>
           (\<exists>srv. main compile fl = Inr srv \<and> capture (registered srv) = regexp))
      \<and> length (deriveRules (matcher regexp) raws)
           + length (filter (\<lambda>raw. matcher regexp (raw_body raw) = None) raws) = length raws)"
  by (auto simp add: NewCollector_def MustCompile_def main_def Let_def deriveRules_length)

text \<open>
  Instances of C6, with a \<open>compile\<close> that rejects the pattern \<^verbatim>\<open>(\<close> and accepts every other
  one.
\<close>

theorem C6_pattern_examples:
  "NewCollector (\<lambda>s. if s = ''('' then Inl ''missing closing )'' else Inr s) ''(''
     = Inl (CompilePanic ''('' ''missing closing )'')
   \<and> main (\<lambda>s. if s = ''('' then Inl ''missing closing )'' else Inr s)
        \<lparr>web_listen_address = None, web_telemetry_path = None, iptables_capture_re = Some ''(''\<rparr>
     = Inl (CompilePanic ''('' ''missing closing )'')
   \<and> NewCollector (\<lambda>s. if s = ''('' then Inl ''missing closing )'' else Inr s) ''.*''
     = Inr \<lparr>capture = ''.*''\<rparr>
   \<and> main (\<lambda>s. if s = ''('' then Inl ''missing closing )'' else Inr s)
        \<lparr>web_listen_address = None, web_telemetry_path = None, iptables_capture_re = None\<rparr>
     = Inr \<lparr>registered = \<lparr>capture = ''.*''\<rparr>, listenAddress = '':9455'',
            metricsPath = ''/metrics''\<rparr>"
proof -
  let ?compile = "\<lambda>s. if s = ''('' then Inl ''missing closing )'' else Inr s"
  let ?bad = "\<lparr>web_listen_address = None, web_telemetry_path = None,
               iptables_capture_re = Some ''(''\<rparr>"
  let ?dflt = "\<lparr>web_listen_address = None, web_telemetry_path = None,
                iptables_capture_re = None\<rparr>"
  have b: "?compile ''('' = Inl ''missing closing )''" by simp
  have g: "?compile ''.*'' = Inr ''.*''" by simp
  have fb: "flagValue ''.*'' (iptables_capture_re ?bad) = ''(''" by (simp add: flagValue_def)
  have fd: "flagValue ''.*'' (iptables_capture_re ?dflt) = ''.*''" by (simp add: flagValue_def)
  have 1: "NewCollector ?compile ''('' = Inl (CompilePanic ''('' ''missing closing )'')
        \<and> main ?compile ?bad = Inl (CompilePanic ''('' ''missing closing )'')"
    using C6_invalid_pattern_rejected [of ?compile "''(''" "''missing closing )''" ?bad
        "''.*''" "\<lambda>re body. Some body" "[]"] b fb
    by simp
  have 2: "NewCollector ?compile ''.*'' = Inr \<lparr>capture = ''.*''\<rparr>
        \<and> (\<exists>srv. main ?compile ?dflt = Inr srv \<and> capture (registered srv) = ''.*'')"
    using C6_invalid_pattern_rejected [of ?compile "''.*''" "''missing closing )''" ?dflt
        "''.*''" "\<lambda>re body. Some body" "[]"] g fd
    by simp
  have 3: "main ?compile ?dflt
     = Inr \<lparr>registered = \<lparr>capture = ''.*''\<rparr>, listenAddress = '':9455'',
            metricsPath = ''/metrics''\<rparr>"
    by (simp add: main_def NewCollector_def MustCompile_def flagValue_def)
  show ?thesis using 1 2 3 by simp
qed

section \<open>The parser\<close>









end
